theory Spec2Isabelle
  imports Main "HOL-Library.Sublist"
begin

section \<open>The document writer of \<open>parser/docwriter/docwriter.go\<close>\<close>

text \<open>
  The package accepts documents from producers (\<open>Write\<close>), queues them on a buffered
  channel and lets a pool of goroutines (\<open>writeLoop\<close>) insert them into a MongoDB
  database, retrying failed inserts (\<open>expFalloff\<close>). This theory embeds the package:
  the pure helpers as functions, the methods as state transformers on a record of the
  \<open>DocWriter\<close> struct, and the goroutines as an interleaving of atomic steps chosen by
  a schedule.
\<close>

subsection \<open>Data\<close>

text \<open>The struct \<open>Document\<close> (lines 18-22); the payload \<open>Doc interface{}\<close> is a type parameter.\<close>

record 'a Document =
  Doc :: 'a
  DB :: string
  Coll :: string

text \<open>
  What a goroutine does to the outside, in the order it does it: a log entry, a sleep
  (in seconds), a session copy or close, a call of \<open>Insert\<close> with the error it returned
  (\<open>None\<close> is Go's \<open>nil\<close>), a \<open>spew.Dump\<close> of a payload.
  \<open>LogStatus n\<close> is the debug entry "WriteLoop status" with \<open>write_chan_count = n\<close>;
  \<open>LogError e f\<close> is the error entry "Database write failure" with \<open>error = e\<close> and,
  from the retry loop only, \<open>falloff = i\<close>.
\<close>

datatype 'a event =
    LogDebug string
  | LogStatus nat
  | LogInfo string
  | LogError string "nat option"
  | Dump 'a
  | SsnCopy
  | SsnClose
  | InsertCall "'a Document" "string option"
  | Sleep nat

text \<open>
  The database behind the session \<open>Ssn\<close>: how many \<open>Insert\<close> calls it has answered and
  the documents it has stored. Whether a call fails is the database's choice, not the
  package's: it is a parameter \<open>ins\<close>, from the number of the call and the document to
  the error returned.
\<close>

record 'a mongo =
  calls :: nat
  stored :: "'a Document list"

type_synonym 'a insert_fn = "nat \<Rightarrow> 'a Document \<Rightarrow> string option"

text \<open>\<open>ssn.DB(doc.DB).C(doc.Coll).Insert(towrite)\<close> (lines 146, 149, 175).\<close>

definition Insert :: "'a insert_fn \<Rightarrow> 'a Document \<Rightarrow> 'a mongo \<Rightarrow> string option \<times> 'a mongo" where
  "Insert ins doc m =
     (case ins (calls m) doc of
        None \<Rightarrow> (None, m\<lparr>calls := Suc (calls m), stored := stored m @ [doc]\<rparr>)
      | Some e \<Rightarrow> (Some e, m\<lparr>calls := Suc (calls m)\<rparr>))"

text \<open>
  The buffered channel \<open>wchan\<close>, made with capacity 5000 (line 50): its buffer, oldest
  first, and whether it has been closed.
\<close>

record 'a chan =
  buf :: "'a Document list"
  closed :: bool

definition wchan_cap :: nat where
  "wchan_cap = 5000"

text \<open>
  The struct \<open>DocWriter\<close> (lines 25-37). \<open>Ssn\<close> holds the database the session leads to;
  \<open>Whitelist\<close> is \<open>None\<close> for a nil slice; \<open>wg\<close> is the counter of the wait group;
  \<open>Meta\<close> is the list of names passed to \<open>AddNewDB\<close> so far. The logger \<open>log\<close> is
  write-only and its entries are events; the mutex \<open>dblock\<close> is the atomicity of the
  step that holds it.
\<close>

record 'a DocWriter =
  Ssn :: "'a mongo"
  pre :: string
  ImportWl :: bool
  Whitelist :: "string list option"
  wchan :: "'a chan"
  wg :: nat
  Meta :: "string list"
  Databases :: "string list"
  started :: bool

text \<open>\<open>New\<close> (lines 41-56); \<open>dbs\<close> is what \<open>mdb.GetDatabases()\<close> returned.\<close>

definition New :: "'a mongo \<Rightarrow> string \<Rightarrow> bool \<Rightarrow> string list option \<Rightarrow> string list \<Rightarrow> 'a DocWriter" where
  "New ssn dbprefix importWhitelist whitelist dbs =
     \<lparr>Ssn = ssn, pre = dbprefix, ImportWl = importWhitelist, Whitelist = whitelist,
      wchan = \<lparr>buf = [], closed = False\<rparr>, wg = 0, Meta = [], Databases = dbs,
      started = False\<rparr>"

subsection \<open>The content filter\<close>

text \<open>
  \<open>strings.Contains(s, substr)\<close> of Go's library: whether \<open>substr\<close> occurs in \<open>s\<close>,
  byte for byte.
\<close>

fun HasPrefix :: "string \<Rightarrow> string \<Rightarrow> bool" where
  "HasPrefix s [] = True"
| "HasPrefix [] (p # ps) = False"
| "HasPrefix (c # s) (p # ps) = (c = p \<and> HasPrefix s ps)"

fun Contains :: "string \<Rightarrow> string \<Rightarrow> bool" where
  "Contains [] substr = (substr = [])"
| "Contains (c # s) substr = (HasPrefix (c # s) substr \<or> Contains s substr)"

text \<open>\<open>isWhitelisted\<close> (lines 111-121): the loop over the patterns, then the nil check.\<close>

fun isWhitelisted_range :: "string list \<Rightarrow> string \<Rightarrow> bool" where
  "isWhitelisted_range [] url = False"
| "isWhitelisted_range (p # ps) url = (if Contains url p then True else isWhitelisted_range ps url)"

definition isWhitelisted :: "string list option \<Rightarrow> string \<Rightarrow> bool" where
  "isWhitelisted whitelist url =
     (case whitelist of None \<Rightarrow> False | Some ps \<Rightarrow> isWhitelisted_range ps url)"

subsection \<open>The retry loop\<close>

text \<open>
  \<open>expFalloff\<close> (lines 170-188). The loop \<open>for i := 0; i < 5; i++\<close> from index \<open>i\<close> on:
  sleep \<open>i * i\<close> seconds, copy the session, insert, and return on success; otherwise
  log the error with the index and go on. The function returns nothing in Go; here it
  returns the events and the database.
\<close>

function expFalloff_for :: "'a insert_fn \<Rightarrow> nat \<Rightarrow> 'a Document \<Rightarrow> 'a mongo \<Rightarrow> 'a event list \<times> 'a mongo" where
  "expFalloff_for ins i doc m =
     (if i < 5 then
        (case Insert ins doc m of
           (None, m') \<Rightarrow>
             ([Sleep (i * i), SsnCopy, InsertCall doc None, SsnClose,
               LogInfo ''Write succeeded''], m')
         | (Some e, m') \<Rightarrow>
             (case expFalloff_for ins (i + 1) doc m' of
                (evs, m'') \<Rightarrow>
                  ([Sleep (i * i), SsnCopy, InsertCall doc (Some e), SsnClose,
                    LogError e (Some i)] @ evs, m'')))
      else ([], m))"
  by pat_completeness auto
termination
  by (relation "measure (\<lambda>(ins, i, doc, m). 5 - i)") auto

declare expFalloff_for.simps [simp del]

definition expFalloff :: "'a insert_fn \<Rightarrow> 'a Document \<Rightarrow> 'a DocWriter \<Rightarrow> 'a event list \<times> 'a DocWriter" where
  "expFalloff ins doc d =
     (case expFalloff_for ins 0 doc (Ssn d) of (evs, m) \<Rightarrow> (evs, d\<lparr>Ssn := m\<rparr>))"

subsection \<open>One iteration of the worker loop\<close>

text \<open>The subject the worker hands to the filter (line 144).\<close>

definition placeholder :: string where
  "placeholder = ''This is a cool wholesome string''"

text \<open>
  Lines 140-161 of \<open>writeLoop\<close>, for the document \<open>doc\<close> just received. \<open>err\<close> is the
  variable declared before the loop (line 126): the iteration starts with the value the
  previous one left and assigns it only where it calls \<open>Insert\<close>. The result is the
  events of the iteration, the value of \<open>err\<close> it leaves and the writer.
\<close>

definition writeLoop_body ::
  "'a insert_fn \<Rightarrow> string option \<Rightarrow> 'a Document \<Rightarrow> 'a DocWriter \<Rightarrow> 'a event list \<times> string option \<times> 'a DocWriter" where
  "writeLoop_body ins err doc d =
     (let towrite = Doc doc;
          (evs1, err1, m1) =
            (if isWhitelisted (Whitelist d) placeholder then
               (if ImportWl d then
                  (case Insert ins doc (Ssn d) of (r, m') \<Rightarrow> ([InsertCall doc r], r, m'))
                else ([], err, Ssn d))
             else
               (case Insert ins doc (Ssn d) of (r, m') \<Rightarrow> ([InsertCall doc r], r, m')))
      in case err1 of
           None \<Rightarrow> ([SsnCopy] @ evs1 @ [SsnClose], err1, d\<lparr>Ssn := m1\<rparr>)
         | Some e \<Rightarrow>
             (case expFalloff ins doc (d\<lparr>Ssn := m1\<rparr>) of
                (evs2, d2) \<Rightarrow>
                  ([SsnCopy] @ evs1
                     @ (if Contains e ''ObjectIDs'' then [Dump towrite] else [])
                     @ [LogError e None] @ evs2 @ [SsnClose],
                   err1, d2)))"

subsection \<open>Goroutines, producers and the schedule\<close>

text \<open>
  A goroutine running \<open>writeLoop\<close> (lines 125-167) is at one of five places:
  \<open>Spawned\<close>, created by \<open>go d.writeLoop()\<close> and not yet run; \<open>LoopTop err\<close>, at the top
  of the \<open>for\<close> (line 128) with the value of its variable \<open>err\<close>; \<open>AtRecv err\<close>, at the
  receive \<open>doc, ok := <-d.wchan\<close> (line 133); \<open>Working err doc\<close>, past the receive with
  the document \<open>doc\<close> in hand (line 138) and its iteration still to do; \<open>Exited\<close>,
  returned.
\<close>

datatype 'a goroutine =
    Spawned
  | LoopTop "string option"
  | AtRecv "string option"
  | Working "string option" "'a Document"
  | Exited

text \<open>
  The writer together with what runs around it. \<open>inflight\<close> holds the documents of the
  \<open>Write\<close> calls that have released \<open>dblock\<close> and have not completed their send;
  \<open>flushing\<close> says that \<open>Flush\<close> has closed the channel and stands in \<open>wg.Wait()\<close>,
  \<open>flushed\<close> that it has returned; \<open>panicked\<close> is the message of an unrecovered panic
  (the package never calls \<open>recover\<close>, so the process ends there); \<open>trace\<close> is every
  event so far. Two fields are history only: \<open>sent\<close>, the documents that entered the
  channel, and \<open>handled\<close>, each document whose iteration is over with the events of
  that iteration.
\<close>

record 'a world =
  dw :: "'a DocWriter"
  goroutines :: "'a goroutine list"
  inflight :: "'a Document list"
  flushing :: bool
  flushed :: bool
  panicked :: "string option"
  trace :: "'a event list"
  sent :: "'a Document list"
  handled :: "('a Document \<times> 'a event list) list"

definition boot :: "'a DocWriter \<Rightarrow> 'a world" where
  "boot d = \<lparr>dw = d, goroutines = [], inflight = [], flushing = False, flushed = False,
             panicked = None, trace = [], sent = [], handled = []\<rparr>"

text \<open>
  \<open>Start\<close> (lines 59-68): the loop \<open>for i := 0; i < count; i++\<close> sets the flag and
  spawns a goroutine in each pass, and runs only when the flag is not set.
\<close>

function Start_for :: "int \<Rightarrow> int \<Rightarrow> 'a world \<Rightarrow> 'a world" where
  "Start_for i count w =
     (if i < count then
        Start_for (i + 1) count
          (w\<lparr>dw := (dw w)\<lparr>started := True\<rparr>, goroutines := goroutines w @ [Spawned]\<rparr>)
      else w)"
  by pat_completeness auto
termination
  by (relation "measure (\<lambda>(i, count, w). nat (count - i))") auto

declare Start_for.simps [simp del]

definition Start :: "int \<Rightarrow> 'a world \<Rightarrow> 'a world" where
  "Start count w = (if \<not> started (dw w) then Start_for 0 count w else w)"

text \<open>\<open>IsStarted\<close> (lines 71-73).\<close>

definition IsStarted :: "'a DocWriter \<Rightarrow> bool" where
  "IsStarted d = started d"

text \<open>
  \<open>Write\<close>, lines 77-90: the prefix, then under \<open>dblock\<close> the scan of \<open>Databases\<close> and,
  for a name not seen, \<open>AddNewDB\<close> and the append. The result is the document as it will
  be sent and the writer.
\<close>

definition Write_locked :: "'a Document \<Rightarrow> 'a DocWriter \<Rightarrow> 'a Document \<times> 'a DocWriter" where
  "Write_locked doc d =
     (let doc' = doc\<lparr>DB := pre d @ DB doc\<rparr>;
          seen = fold (\<lambda>aval seen. if aval = DB doc' then True else seen) (Databases d) False
      in if \<not> seen
         then (doc', d\<lparr>Meta := Meta d @ [DB doc'], Databases := Databases d @ [DB doc']\<rparr>)
         else (doc', d))"

text \<open>
  The channel operations of Go: a send on a closed channel panics, a send on a full
  buffer blocks; a receive takes the oldest document, reports \<open>ok = false\<close> on a closed
  and empty channel and blocks on an open and empty one; closing a closed channel
  panics.
\<close>

datatype 'a send_result = Sent "'a chan" | SendBlocks | SendPanics

definition chan_send :: "'a Document \<Rightarrow> 'a chan \<Rightarrow> 'a send_result" where
  "chan_send doc c =
     (if closed c then SendPanics
      else if length (buf c) < wchan_cap then Sent (c\<lparr>buf := buf c @ [doc]\<rparr>)
      else SendBlocks)"

datatype 'a recv_result = Received "'a Document" "'a chan" | NotOk | RecvBlocks

definition chan_recv :: "'a chan \<Rightarrow> 'a recv_result" where
  "chan_recv c =
     (case buf c of
        doc # rest \<Rightarrow> Received doc (c\<lparr>buf := rest\<rparr>)
      | [] \<Rightarrow> if closed c then NotOk else RecvBlocks)"

definition chan_close :: "'a chan \<Rightarrow> 'a chan option" where
  "chan_close c = (if closed c then None else Some (c\<lparr>closed := True\<rparr>))"

text \<open>
  \<open>Write\<close> (lines 76-93) as one call with no other thread in between: what the call
  does at the send, and the writer it leaves. \<open>Blocked\<close> is a call that does not return
  until a receive makes room.
\<close>

datatype write_result = Enqueued | Blocked | Panic string

definition Write :: "'a Document \<Rightarrow> 'a DocWriter \<Rightarrow> write_result \<times> 'a DocWriter" where
  "Write doc d =
     (case Write_locked doc d of
        (doc', d') \<Rightarrow>
          (case chan_send doc' (wchan d') of
             Sent c \<Rightarrow> (Enqueued, d'\<lparr>wchan := c\<rparr>)
           | SendBlocks \<Rightarrow> (Blocked, d')
           | SendPanics \<Rightarrow> (Panic ''send on closed channel'', d')))"

text \<open>The send of \<open>Write\<close> (line 91) for the \<open>k\<close>-th call in flight.\<close>

definition Write_send :: "nat \<Rightarrow> 'a world \<Rightarrow> 'a world" where
  "Write_send k w =
     (case chan_send (inflight w ! k) (wchan (dw w)) of
        Sent c \<Rightarrow>
          w\<lparr>dw := (dw w)\<lparr>wchan := c\<rparr>,
            inflight := take k (inflight w) @ drop (Suc k) (inflight w),
            sent := sent w @ [inflight w ! k]\<rparr>
      | SendBlocks \<Rightarrow> w
      | SendPanics \<Rightarrow> w\<lparr>panicked := Some ''send on closed channel''\<rparr>)"

text \<open>
  \<open>Flush\<close> (lines 96-103) in its two parts: up to the call of \<open>wg.Wait()\<close>, and the
  return from it, which needs the counter at zero.
\<close>

definition Flush_close :: "'a world \<Rightarrow> 'a world" where
  "Flush_close w =
     (case chan_close (wchan (dw w)) of
        None \<Rightarrow>
          w\<lparr>trace := trace w @ [LogDebug ''closing write channel''],
            panicked := Some ''close of closed channel''\<rparr>
      | Some c \<Rightarrow>
          w\<lparr>dw := (dw w)\<lparr>wchan := c\<rparr>,
            trace := trace w @ [LogDebug ''closing write channel'',
                                LogDebug ''waiting for writes to finish''],
            flushing := True\<rparr>)"

definition Flush_wait :: "'a world \<Rightarrow> 'a world" where
  "Flush_wait w =
     (if flushing w \<and> wg (dw w) = 0
      then w\<lparr>trace := trace w @ [LogDebug ''writes completed, exiting write loop''],
             flushing := False, flushed := True\<rparr>
      else w)"

text \<open>
  One step of goroutine \<open>k\<close> in \<open>writeLoop\<close>: \<open>var err error; d.wg.Add(1)\<close> (lines
  126-127); the status entry of lines 129-132; the receive of line 133, which either
  takes a document out of the buffer or, on a closed and empty channel, is followed by
  the exit (lines 135-136 and 164-166); the iteration for the document in hand (lines
  140-161). A goroutine that blocks in the receive leaves the world as it is.

  Between the receive and the end of the iteration the other goroutines, the producers
  and \<open>Flush\<close> can take any number of steps. The iteration itself, with the retries of
  \<open>expFalloff\<close>, is one step: it reads the settings of the writer and otherwise touches
  only the variables of its goroutine, the database and the log, and the answers of the
  database are left open by \<open>ins\<close>. \<open>Copy\<close> and \<open>Close\<close> of a session are calls into the
  driver, which is not part of the package: they are recorded as events and taken to
  return.
\<close>

definition writeLoop_step :: "'a insert_fn \<Rightarrow> nat \<Rightarrow> 'a world \<Rightarrow> 'a world" where
  "writeLoop_step ins k w =
     (case goroutines w ! k of
        Spawned \<Rightarrow>
          w\<lparr>dw := (dw w)\<lparr>wg := wg (dw w) + 1\<rparr>,
            goroutines := (goroutines w)[k := LoopTop None]\<rparr>
      | LoopTop err \<Rightarrow>
          w\<lparr>trace := trace w @ [LogStatus (length (buf (wchan (dw w))))],
            goroutines := (goroutines w)[k := AtRecv err]\<rparr>
      | AtRecv err \<Rightarrow>
          (case chan_recv (wchan (dw w)) of
             RecvBlocks \<Rightarrow> w
           | NotOk \<Rightarrow>
               (if wg (dw w) = 0
                then w\<lparr>trace := trace w @ [LogInfo ''WriteLoop got closed channel, exiting'', SsnClose],
                       panicked := Some ''sync: negative WaitGroup counter''\<rparr>
                else w\<lparr>dw := (dw w)\<lparr>wg := wg (dw w) - 1\<rparr>,
                       trace := trace w @ [LogInfo ''WriteLoop got closed channel, exiting'', SsnClose],
                       goroutines := (goroutines w)[k := Exited]\<rparr>)
           | Received doc c \<Rightarrow>
               w\<lparr>dw := (dw w)\<lparr>wchan := c\<rparr>,
                 goroutines := (goroutines w)[k := Working err doc]\<rparr>)
      | Working err doc \<Rightarrow>
          (case writeLoop_body ins err doc (dw w) of
             (evs, err', d') \<Rightarrow>
               w\<lparr>dw := d', trace := trace w @ evs, handled := handled w @ [(doc, evs)],
                 goroutines := (goroutines w)[k := LoopTop err']\<rparr>)
      | Exited \<Rightarrow> w)"

text \<open>
  What can happen next: a call of \<open>Start\<close>; the locked part of a call of \<open>Write\<close>; the
  send of the \<open>k\<close>-th call in flight; the two parts of \<open>Flush\<close>; a step of goroutine
  \<open>k\<close>. A schedule is a list of these, so that every order in which producers, \<open>Flush\<close>
  and the goroutines can take turns is some schedule. After a panic nothing happens.
\<close>

datatype 'a action =
    CallStart int
  | CallWrite "'a Document"
  | Send nat
  | FlushClose
  | FlushWait
  | Run nat

definition step :: "'a insert_fn \<Rightarrow> 'a action \<Rightarrow> 'a world \<Rightarrow> 'a world" where
  "step ins a w =
     (if panicked w \<noteq> None then w
      else case a of
          CallStart count \<Rightarrow> Start count w
        | CallWrite doc \<Rightarrow>
            (case Write_locked doc (dw w) of
               (doc', d') \<Rightarrow> w\<lparr>dw := d', inflight := inflight w @ [doc']\<rparr>)
        | Send k \<Rightarrow> (if k < length (inflight w) then Write_send k w else w)
        | FlushClose \<Rightarrow> Flush_close w
        | FlushWait \<Rightarrow> Flush_wait w
        | Run k \<Rightarrow> (if k < length (goroutines w) then writeLoop_step ins k w else w))"

definition run :: "'a insert_fn \<Rightarrow> 'a action list \<Rightarrow> 'a world \<Rightarrow> 'a world" where
  "run ins acts w = fold (step ins) acts w"

section \<open>Reading a list of events\<close>

text \<open>
  The durations slept, the \<open>Insert\<close> calls with their results, and the error entries
  with their \<open>falloff\<close> field, each in order of occurrence.
\<close>

primrec sleeps :: "'a event list \<Rightarrow> nat list" where
  "sleeps [] = []"
| "sleeps (e # es) = (case e of Sleep n \<Rightarrow> n # sleeps es | _ \<Rightarrow> sleeps es)"

primrec inserts :: "'a event list \<Rightarrow> ('a Document \<times> string option) list" where
  "inserts [] = []"
| "inserts (e # es) = (case e of InsertCall doc r \<Rightarrow> (doc, r) # inserts es | _ \<Rightarrow> inserts es)"

primrec error_entries :: "'a event list \<Rightarrow> (string \<times> nat option) list" where
  "error_entries [] = []"
| "error_entries (e # es) =
     (case e of LogError t f \<Rightarrow> (t, f) # error_entries es | _ \<Rightarrow> error_entries es)"

text \<open>The sleeps and the \<open>Insert\<close> calls alone, interleaved as they happened.\<close>

definition timeline :: "'a event list \<Rightarrow> 'a event list" where
  "timeline evs =
     filter (\<lambda>e. case e of Sleep n \<Rightarrow> True | InsertCall doc r \<Rightarrow> True | _ \<Rightarrow> False) evs"

text \<open>The \<open>falloff\<close> indices of the error entries that carry one: the failed retries.\<close>

definition falloffs :: "'a event list \<Rightarrow> nat list" where
  "falloffs evs = List.map_filter snd (error_entries evs)"

text \<open>
  The events of pass \<open>i\<close> of the retry loop when its \<open>Insert\<close> returns \<open>r\<close>; the closed
  form of \<open>expFalloff_for\<close> is stated with it.
\<close>

definition retry_pass :: "'a Document \<Rightarrow> nat \<Rightarrow> string option \<Rightarrow> 'a event list" where
  "retry_pass doc i r =
     [Sleep (i * i), SsnCopy, InsertCall doc r, SsnClose,
      (case r of None \<Rightarrow> LogInfo ''Write succeeded'' | Some e \<Rightarrow> LogError e (Some i))]"

text \<open>
  Whether the iteration of line 144 calls \<open>Insert\<close> itself (line 146 or 149): the event
  after the session copy is then that call.
\<close>

fun inserts_first :: "'a event list \<Rightarrow> bool" where
  "inserts_first (SsnCopy # InsertCall doc r # evs) = True"
| "inserts_first evs = False"

text \<open>
  An iteration can end for its document with an \<open>Insert\<close> of it that returned \<open>nil\<close>,
  with the retries exhausted, or with no \<open>Insert\<close> at all because the filter matched
  with the import flag off.
\<close>

definition inserted :: "'a Document \<Rightarrow> 'a event list \<Rightarrow> bool" where
  "inserted doc evs = ((doc, None) \<in> set (inserts evs))"

text \<open>
  \<open>failed_passes doc ss es\<close>: the sleeps and \<open>Insert\<close> calls \<open>es\<close> are one pass for each
  duration of \<open>ss\<close> and nothing else, a pass being a sleep of that duration followed by
  an \<open>Insert\<close> of \<open>doc\<close> that returned an error.
\<close>

fun failed_passes :: "'a Document \<Rightarrow> nat list \<Rightarrow> 'a event list \<Rightarrow> bool" where
  "failed_passes doc [] es = (es = [])"
| "failed_passes doc (s # ss) (Sleep n # InsertCall d r # es) =
     (n = s \<and> d = doc \<and> r \<noteq> None \<and> failed_passes doc ss es)"
| "failed_passes doc (s # ss) es = False"

text \<open>
  An iteration has exhausted the retries for its document when its sleeps and \<open>Insert\<close>
  calls are, after at most one failed \<open>Insert\<close> of the document by the loop itself,
  exactly the five failed passes of the retry loop, and the error entries that carry a
  \<open>falloff\<close> index are those of the five passes.
\<close>

definition exhausted :: "'a Document \<Rightarrow> 'a event list \<Rightarrow> bool" where
  "exhausted doc evs =
     (\<not> inserted doc evs \<and> falloffs evs = [0, 1, 2, 3, 4]
      \<and> (case timeline evs of
            InsertCall d r # es \<Rightarrow> d = doc \<and> r \<noteq> None \<and> failed_passes doc [0, 1, 4, 9, 16] es
          | es \<Rightarrow> failed_passes doc [0, 1, 4, 9, 16] es))"

definition skipped :: "'a DocWriter \<Rightarrow> 'a event list \<Rightarrow> bool" where
  "skipped d evs = (isWhitelisted (Whitelist d) placeholder \<and> \<not> ImportWl d \<and> inserts evs = [])"

definition resolved :: "'a DocWriter \<Rightarrow> 'a Document \<Rightarrow> 'a event list \<Rightarrow> bool" where
  "resolved d doc evs = (inserted doc evs \<or> exhausted doc evs \<or> skipped d evs)"

section \<open>Reading a world\<close>

text \<open>
  A goroutine is in the loop between its \<open>wg.Add(1)\<close> and its \<open>wg.Done()\<close>. The number
  of its own steps a goroutine still needs to leave the loop once the channel is closed
  is three times the length of the buffer plus \<open>steps_left\<close> of its place, at most.
\<close>

fun in_loop :: "'a goroutine \<Rightarrow> bool" where
  "in_loop (LoopTop err) = True"
| "in_loop (AtRecv err) = True"
| "in_loop (Working err doc) = True"
| "in_loop g = False"

fun steps_left :: "'a goroutine \<Rightarrow> nat" where
  "steps_left Spawned = 3"
| "steps_left (LoopTop err) = 2"
| "steps_left (AtRecv err) = 1"
| "steps_left (Working err doc) = 3"
| "steps_left Exited = 0"

definition todo :: "nat \<Rightarrow> 'a world \<Rightarrow> nat" where
  "todo k w = 3 * length (buf (wchan (dw w))) + steps_left (goroutines w ! k)"

text \<open>The value of the variable \<open>err\<close> of a goroutine in the loop; nil outside it.\<close>

fun err_of :: "'a goroutine \<Rightarrow> string option" where
  "err_of (LoopTop err) = err"
| "err_of (AtRecv err) = err"
| "err_of (Working err doc) = err"
| "err_of g = None"

text \<open>The documents received and not yet through their iteration.\<close>

fun in_hand :: "'a goroutine \<Rightarrow> 'a Document list" where
  "in_hand (Working err doc) = [doc]"
| "in_hand g = []"

definition busy :: "'a world \<Rightarrow> 'a Document list" where
  "busy w = concat (map in_hand (goroutines w))"

text \<open>The actions that are no producer's: a step of a goroutine, the return of \<open>Flush\<close>.\<close>

fun draining :: "'a action \<Rightarrow> bool" where
  "draining (Run k) = True"
| "draining FlushWait = True"
| "draining a = False"

text \<open>
  What \<open>Write\<close> keeps true of the names, for a writer made by \<open>New\<close> from the list
  \<open>dbs\<close>: the names known are \<open>dbs\<close> followed by those reported to \<open>AddNewDB\<close>, no
  name is known twice, and the name of every document that has left the locked part of
  \<open>Write\<close> is known.
\<close>

definition registered :: "string list \<Rightarrow> 'a world \<Rightarrow> bool" where
  "registered dbs w =
     (Databases (dw w) = dbs @ Meta (dw w) \<and> distinct (Databases (dw w))
      \<and> list_all (\<lambda>doc. DB doc \<in> set (Databases (dw w))) (inflight w @ sent w))"

text \<open>
  What every schedule keeps true of the queue and the pool. \<open>conserved\<close>: the documents
  that entered the channel are, each as often as it entered, those whose iteration is
  over, those in the hands of a goroutine and those in the buffer. \<open>settled\<close>: every
  document whose iteration is over ended it in one of the three ways of \<open>resolved\<close>.
  \<open>counted\<close>: the wait group counts the goroutines in the loop.
  \<open>shut\<close>: once \<open>Flush\<close> is past its \<open>close\<close>, the channel is closed. \<open>drained\<close>: a
  goroutine has exited only if the channel is closed and its buffer empty.
\<close>

definition same_documents :: "'b list \<Rightarrow> 'b list \<Rightarrow> bool" where
  "same_documents xs ys = list_all (\<lambda>x. count_list xs x = count_list ys x) (xs @ ys)"

definition whereabouts :: "'a world \<Rightarrow> 'a Document list" where
  "whereabouts w = map fst (handled w) @ busy w @ buf (wchan (dw w))"

definition conserved :: "'a world \<Rightarrow> bool" where
  "conserved w = same_documents (whereabouts w) (sent w)"

definition settled :: "'a world \<Rightarrow> bool" where
  "settled w = list_all (\<lambda>(doc, evs). resolved (dw w) doc evs) (handled w)"

definition counted :: "'a world \<Rightarrow> bool" where
  "counted w = (wg (dw w) = length (filter in_loop (goroutines w)))"

definition shut :: "'a world \<Rightarrow> bool" where
  "shut w = (if flushing w \<or> flushed w then closed (wchan (dw w)) else True)"

definition drained :: "'a world \<Rightarrow> bool" where
  "drained w =
     (if Exited \<in> set (goroutines w)
      then closed (wchan (dw w)) \<and> buf (wchan (dw w)) = [] else True)"

section \<open>Inputs for the examples\<close>

definition doc0 :: "nat Document" where
  "doc0 = \<lparr>Doc = 7, DB = ''flows'', Coll = ''conn''\<rparr>"

definition doc1 :: "nat Document" where
  "doc1 = \<lparr>Doc = 8, DB = ''flows'', Coll = ''dns''\<rparr>"

definition mongo0 :: "nat mongo" where
  "mongo0 = \<lparr>calls = 0, stored = []\<rparr>"

text \<open>A writer with no whitelist, and one whose whitelist matches the placeholder.\<close>

definition d0 :: "nat DocWriter" where
  "d0 = New mongo0 ''rita-'' False None []"

definition d_filtering :: "nat DocWriter" where
  "d_filtering = New mongo0 ''rita-'' False (Some [''wholesome'']) []"

text \<open>A database that refuses every insert, and one that refuses the first \<open>k\<close>.\<close>

definition always_down :: "nat insert_fn" where
  "always_down n doc = Some ''no reachable servers''"

definition down_until :: "nat \<Rightarrow> nat insert_fn" where
  "down_until k n doc = (if n < k then Some ''no reachable servers'' else None)"

text \<open>
  Two schedules with one producer and one goroutine: a document is written and \<open>Flush\<close>
  closes the channel; in the second, \<open>Flush\<close> also returns at once.
\<close>

definition write_then_close :: "nat action list" where
  "write_then_close = [CallStart 1, CallWrite doc0, Send 0, FlushClose]"

definition flush_at_once :: "nat action list" where
  "flush_at_once = [CallStart 1, CallWrite doc0, Send 0, FlushClose, FlushWait]"

text \<open>A schedule in which the goroutine begins before \<open>Flush\<close> and drains the queue.\<close>

definition drain_before_wait :: "nat action list" where
  "drain_before_wait =
     [CallStart 1, CallWrite doc0, Send 0, Run 0, FlushClose, Run 0, Run 0, Run 0, Run 0, Run 0]"

section \<open>The content filter\<close>

lemma HasPrefix_prefix: "HasPrefix s p = prefix p s"
  by (induction s p rule: HasPrefix.induct) auto

lemma Contains_sublist: "Contains s sub = sublist sub s"
  by (induction s) (auto simp: HasPrefix_prefix sublist_Cons_right)

lemma isWhitelisted_range_iff: "isWhitelisted_range ps url = (\<exists>p\<in>set ps. Contains url p)"
  by (induction ps) auto

text \<open>
  Claim C8. \<open>isWhitelisted\<close> returns false for a nil and for an empty pattern list;
  for any list it returns true exactly when the subject contains one of the patterns as
  a contiguous run of bytes (so case matters). On \<open>["foo"]\<close> it returns true for
  \<open>"foobar"\<close> and false for \<open>"bar"\<close> and for \<open>"FOObar"\<close>.
\<close>

theorem isWhitelisted_substring:
  "\<not> isWhitelisted None url
   \<and> \<not> isWhitelisted (Some []) url
   \<and> (isWhitelisted (Some ps) url \<longleftrightarrow> (\<exists>p\<in>set ps. \<exists>l r. url = l @ p @ r))
   \<and> isWhitelisted (Some [''foo'']) ''foobar''
   \<and> \<not> isWhitelisted (Some [''foo'']) ''bar''
   \<and> \<not> isWhitelisted (Some [''foo'']) ''FOObar''"
proof -
  have general: "isWhitelisted (Some ps) url \<longleftrightarrow> (\<exists>p\<in>set ps. \<exists>l r. url = l @ p @ r)"
    by (simp add: isWhitelisted_def isWhitelisted_range_iff Contains_sublist sublist_def)
  have examples: "isWhitelisted (Some [''foo'']) ''foobar''"
    "\<not> isWhitelisted (Some [''foo'']) ''bar''"
    "\<not> isWhitelisted (Some [''foo'']) ''FOObar''"
    by (simp_all add: isWhitelisted_def)
  show ?thesis
    using general examples by (simp add: isWhitelisted_def)
qed

theorem isWhitelisted_substring_witness:
  "isWhitelisted (Some [''evil'', ''foo'']) ''a-foo-b'' \<and> ''a-foo-b'' = ''a-'' @ ''foo'' @ ''-b''"
proof -
  have "\<exists>p\<in>set [''evil'', ''foo'']. \<exists>l r. ''a-foo-b'' = l @ p @ r"
    by (intro bexI[of _ "''foo''"] exI[of _ "''a-''"] exI[of _ "''-b''"]) simp_all
  with isWhitelisted_substring[of "''a-foo-b''" "[''evil'', ''foo'']"] show ?thesis
    by simp
qed


section \<open>The retry loop\<close>

lemma upt_0_Suc: "[0..<Suc n] = 0 # map Suc [0..<n]"
  by (simp add: upt_conv_Cons map_Suc_upt del: upt_Suc)

lemma inserts_append [simp]: "inserts (xs @ ys) = inserts xs @ inserts ys"
  by (induction xs) (auto split: event.splits)

lemma sleeps_append [simp]: "sleeps (xs @ ys) = sleeps xs @ sleeps ys"
  by (induction xs) (auto split: event.splits)

lemma error_entries_append [simp]: "error_entries (xs @ ys) = error_entries xs @ error_entries ys"
  by (induction xs) (auto split: event.splits)

lemma timeline_Nil [simp]: "timeline [] = []"
  by (simp add: timeline_def)

lemma timeline_append [simp]: "timeline (xs @ ys) = timeline xs @ timeline ys"
  by (simp add: timeline_def)

lemma inserts_retry_pass [simp]: "inserts (retry_pass doc i r) = [(doc, r)]"
  by (simp add: retry_pass_def split: option.splits)

lemma sleeps_retry_pass [simp]: "sleeps (retry_pass doc i r) = [i * i]"
  by (simp add: retry_pass_def split: option.splits)

lemma timeline_retry_pass [simp]:
  "timeline (retry_pass doc i r) = [Sleep (i * i), InsertCall doc r]"
  by (simp add: retry_pass_def timeline_def split: option.splits)

lemma error_entries_retry_pass [simp]:
  "error_entries (retry_pass doc i r) = (case r of None \<Rightarrow> [] | Some e \<Rightarrow> [(e, Some i)])"
  by (simp add: retry_pass_def split: option.splits)

lemma concat_map_upt_Suc:
  "concat (map f [0..<Suc n]) = f 0 @ concat (map (\<lambda>j. f (Suc j)) [0..<n])"
  by (simp add: upt_0_Suc comp_def del: upt_Suc)

text \<open>What the retry loop does from index i on, in closed form.\<close>

lemma expFalloff_for_shape:
  "let evs = fst (expFalloff_for ins i doc m); n = length (inserts evs) in
     n \<le> 5 - i \<and> (i < 5 \<longrightarrow> 1 \<le> n)
     \<and> evs = concat (map (\<lambda>j. retry_pass doc (i + j) (ins (calls m + j) doc)) [0..<n])
     \<and> (\<forall>j<n. ins (calls m + j) doc = None \<longrightarrow> Suc j = n)
     \<and> (\<forall>j. Suc j = n \<and> n < 5 - i \<longrightarrow> ins (calls m + j) doc = None)
     \<and> snd (expFalloff_for ins i doc m) =
         m\<lparr>calls := calls m + n,
           stored := stored m @
             concat (map (\<lambda>j. case ins (calls m + j) doc of None \<Rightarrow> [doc] | Some e \<Rightarrow> []) [0..<n])\<rparr>"
proof (induction ins i doc m rule: expFalloff_for.induct)
  case (1 ins i doc m)
  show ?case
  proof (cases "i < 5")
    case False
    then show ?thesis by (simp add: expFalloff_for.simps[of ins i doc m])
  next
    case True
    show ?thesis
    proof (cases "ins (calls m) doc")
      case None
      with True show ?thesis
        by (simp add: expFalloff_for.simps[of ins i doc m] Insert_def retry_pass_def)
    next
      case (Some e)
      define m' where "m' = m\<lparr>calls := Suc (calls m)\<rparr>"
      define evs' where "evs' = fst (expFalloff_for ins (i + 1) doc m')"
      define n' where "n' = length (inserts evs')"
      have ins: "Insert ins doc m = (Some e, m')"
        by (simp add: Insert_def Some m'_def)
      have evs: "fst (expFalloff_for ins i doc m) = retry_pass doc i (Some e) @ evs'"
        using True
        by (simp add: expFalloff_for.simps[of ins i doc m] ins evs'_def case_prod_beta retry_pass_def)
      have res: "snd (expFalloff_for ins i doc m) = snd (expFalloff_for ins (i + 1) doc m')"
        using True
        by (simp add: expFalloff_for.simps[of ins i doc m] ins case_prod_beta)
      have n: "length (inserts (fst (expFalloff_for ins i doc m))) = Suc n'"
        by (simp add: evs n'_def)
      have IH: "n' \<le> 5 - (i + 1)"
        "evs' = concat (map (\<lambda>j. retry_pass doc (i + 1 + j) (ins (calls m' + j) doc)) [0..<n'])"
        "\<forall>j<n'. ins (calls m' + j) doc = None \<longrightarrow> Suc j = n'"
        "\<forall>j. Suc j = n' \<and> n' < 5 - (i + 1) \<longrightarrow> ins (calls m' + j) doc = None"
        "i + 1 < 5 \<longrightarrow> 1 \<le> n'"
        "snd (expFalloff_for ins (i + 1) doc m') =
           m'\<lparr>calls := calls m' + n',
             stored := stored m' @
               concat (map (\<lambda>j. case ins (calls m' + j) doc of None \<Rightarrow> [doc] | Some e \<Rightarrow> []) [0..<n'])\<rparr>"
        using "1.IH"[OF True ins[symmetric] refl]
        by (simp_all add: Let_def evs'_def n'_def)
      have c: "calls m' = Suc (calls m)" by (simp add: m'_def)
      have a: "Suc n' \<le> 5 - i" using IH(1) True by simp
      have b: "fst (expFalloff_for ins i doc m) =
         concat (map (\<lambda>j. retry_pass doc (i + j) (ins (calls m + j) doc)) [0..<Suc n'])"
        unfolding concat_map_upt_Suc evs by (subst IH(2)) (simp add: c Some)
      have d: "\<forall>j<Suc n'. ins (calls m + j) doc = None \<longrightarrow> Suc j = Suc n'"
        using IH(3) by (simp add: All_less_Suc2 Some c)
      have e: "\<forall>j. Suc j = Suc n' \<and> Suc n' < 5 - i \<longrightarrow> ins (calls m + j) doc = None"
      proof (intro allI impI)
        fix j assume l: "Suc j = Suc n' \<and> Suc n' < 5 - i"
        then have l1: "Suc n' < 5 - i" and l2: "j = n'" by simp_all
        from l1 have "i + 1 < 5" by linarith
        with IH(5) obtain k where k: "Suc k = n'" by (cases n') auto
        from l1 have lt: "n' < 5 - (i + 1)" by linarith
        have "ins (calls m' + k) doc = None"
          by (rule IH(4)[rule_format, OF conjI, OF k lt])
        then show "ins (calls m + j) doc = None"
          unfolding l2 k[symmetric] c by (simp only: add_Suc add_Suc_right)
      qed
      have f: "snd (expFalloff_for ins i doc m) =
         m\<lparr>calls := calls m + Suc n',
           stored := stored m @
             concat (map (\<lambda>j. case ins (calls m + j) doc of None \<Rightarrow> [doc] | Some e \<Rightarrow> []) [0..<Suc n'])\<rparr>"
        unfolding concat_map_upt_Suc res IH(6) by (simp add: m'_def Some)
      show ?thesis
        unfolding Let_def n by (intro conjI a b d e f) simp
    qed
  qed
qed


lemma sleeps_concat_retry:
  "sleeps (concat (map (\<lambda>j. retry_pass doc (f j) (g j)) xs)) = map (\<lambda>j. f j * f j) xs"
  by (induction xs) simp_all

lemma timeline_concat_retry:
  "timeline (concat (map (\<lambda>j. retry_pass doc (f j) (g j)) xs)) =
     concat (map (\<lambda>j. [Sleep (f j * f j), InsertCall doc (g j)]) xs)"
  by (induction xs) simp_all

lemma inserts_concat_retry:
  "inserts (concat (map (\<lambda>j. retry_pass doc (f j) (g j)) xs)) = map (\<lambda>j. (doc, g j)) xs"
  by (induction xs) simp_all

lemma sum_squares_le_30: "n \<le> 5 \<Longrightarrow> sum_list (map (\<lambda>i. i * i) [0..<n]) \<le> (30::nat)"
proof -
  assume "n \<le> 5"
  then consider "n = 0" | "n = 1" | "n = 2" | "n = 3" | "n = 4" | "n = 5"
    by linarith
  then show ?thesis
    by cases (simp_all add: upt_rec)
qed

text \<open>
  Claim C5. Whatever the database answers, \<open>expFalloff\<close> makes between one and five
  insert attempts; before attempt \<open>i\<close> (counted from 0) it sleeps \<open>i * i\<close> seconds and
  nothing else separates the attempts, so the sleeps are 0, 1, 4, 9, 16 and at most 30
  in total; an attempt that succeeds is the last one; and the loop stops short of five
  attempts only after a success.
\<close>

theorem expFalloff_backoff:
  "let evs = fst (expFalloff ins doc d); n = length (inserts evs); c = calls (Ssn d) in
     1 \<le> n \<and> n \<le> 5
     \<and> timeline evs = concat (map (\<lambda>i. [Sleep (i * i), InsertCall doc (ins (c + i) doc)]) [0..<n])
     \<and> sleeps evs = map (\<lambda>i. i * i) [0..<n]
     \<and> sum_list (sleeps evs) \<le> 30
     \<and> (\<forall>i<n. ins (c + i) doc = None \<longrightarrow> Suc i = n)
     \<and> (\<forall>i. Suc i = n \<and> n < 5 \<longrightarrow> ins (c + i) doc = None)"
proof -
  define evs where "evs = fst (expFalloff_for ins 0 doc (Ssn d))"
  define n where "n = length (inserts evs)"
  have fst: "fst (expFalloff ins doc d) = evs"
    by (simp add: expFalloff_def evs_def case_prod_beta)
  from expFalloff_for_shape[of ins 0 doc "Ssn d"]
  have n: "1 \<le> n" "n \<le> 5"
    and evs: "evs = concat (map (\<lambda>j. retry_pass doc j (ins (calls (Ssn d) + j) doc)) [0..<n])"
    and stop: "\<forall>j<n. ins (calls (Ssn d) + j) doc = None \<longrightarrow> Suc j = n"
    and short: "\<forall>j. Suc j = n \<and> n < 5 \<longrightarrow> ins (calls (Ssn d) + j) doc = None"
    by (simp_all add: Let_def evs_def[symmetric] n_def[symmetric])
  have tl: "timeline evs =
      concat (map (\<lambda>i. [Sleep (i * i), InsertCall doc (ins (calls (Ssn d) + i) doc)]) [0..<n])"
    by (subst evs) (rule timeline_concat_retry)
  have sl: "sleeps evs = map (\<lambda>i. i * i) [0..<n]"
    by (subst evs) (rule sleeps_concat_retry)
  have sum: "sum_list (sleeps evs) \<le> 30"
    unfolding sl using n(2) by (rule sum_squares_le_30)
  show ?thesis
    unfolding Let_def fst n_def[symmetric]
    by (intro conjI n tl sl sum stop short)
qed

theorem expFalloff_backoff_witness:
  "down_until 2 (calls (Ssn d0) + 2) doc0 = None
   \<and> timeline (fst (expFalloff (down_until 2) doc0 d0)) =
       [Sleep 0, InsertCall doc0 (Some ''no reachable servers''),
        Sleep 1, InsertCall doc0 (Some ''no reachable servers''),
        Sleep 4, InsertCall doc0 None]
   \<and> length (inserts (fst (expFalloff (down_until 2) doc0 d0))) = 3"
proof -
  have len: "length (inserts (fst (expFalloff (down_until 2) doc0 d0))) = 3"
    by (simp add: expFalloff_def expFalloff_for.simps Insert_def down_until_def d0_def New_def mongo0_def)
  have ok: "down_until 2 (calls (Ssn d0) + 2) doc0 = None"
    by (simp add: down_until_def)
  have c: "calls (Ssn d0) = 0"
    by (simp add: d0_def New_def mongo0_def)
  from expFalloff_backoff[of "down_until 2" doc0 d0, unfolded Let_def len c] len ok show ?thesis
    by (simp add: upt_rec down_until_def)
qed


lemma error_entries_concat_retry:
  "error_entries (concat (map (\<lambda>j. retry_pass doc (f j) (g j)) xs)) =
     concat (map (\<lambda>j. case g j of None \<Rightarrow> [] | Some e \<Rightarrow> [(e, Some (f j))]) xs)"
  by (induction xs) simp_all

lemma falloffs_all_failed:
  "\<forall>j\<in>set xs. g j \<noteq> None \<Longrightarrow>
   falloffs (concat (map (\<lambda>j. retry_pass doc (f j) (g j)) xs)) = map f xs"
  by (induction xs) (auto simp: falloffs_def List.map_filter_simps)

lemma error_entries_all_failed:
  "\<forall>j\<in>set xs. g j \<noteq> None \<Longrightarrow>
   error_entries (concat (map (\<lambda>j. retry_pass doc (f j) (g j)) xs)) =
     map (\<lambda>j. (the (g j), Some (f j))) xs"
  by (induction xs) auto

lemma stored_all_failed:
  "\<forall>j\<in>set xs. g j \<noteq> None \<Longrightarrow>
   concat (map (\<lambda>j. case g j of None \<Rightarrow> [doc] | Some e \<Rightarrow> []) xs) = []"
  by (induction xs) auto

text \<open>
  The retry loop ends in one of two ways: its last attempt succeeded and the document is
  stored, or all five attempts failed and nothing is stored.
\<close>

lemma expFalloff_for_outcome:
  "let evs = fst (expFalloff_for ins 0 doc m); m' = snd (expFalloff_for ins 0 doc m) in
     (inserted doc evs \<and> stored m' = stored m @ [doc])
     \<or> (\<not> inserted doc evs \<and> length (inserts evs) = 5 \<and> sleeps evs = [0, 1, 4, 9, 16]
         \<and> falloffs evs = [0, 1, 2, 3, 4] \<and> length (error_entries evs) = 5
         \<and> stored m' = stored m \<and> (\<forall>j<5. ins (calls m + j) doc \<noteq> None))"
proof -
  define evs where "evs = fst (expFalloff_for ins 0 doc m)"
  define m' where "m' = snd (expFalloff_for ins 0 doc m)"
  define n where "n = length (inserts evs)"
  define g where "g = (\<lambda>j. ins (calls m + j) doc)"
  from expFalloff_for_shape[of ins 0 doc m]
  have n: "1 \<le> n" "n \<le> 5"
    and evs: "evs = concat (map (\<lambda>j. retry_pass doc j (g j)) [0..<n])"
    and stop: "\<forall>j<n. g j = None \<longrightarrow> Suc j = n"
    and short: "\<forall>j. Suc j = n \<and> n < 5 \<longrightarrow> g j = None"
    and m': "m' = m\<lparr>calls := calls m + n,
        stored := stored m @ concat (map (\<lambda>j. case g j of None \<Rightarrow> [doc] | Some e \<Rightarrow> []) [0..<n])\<rparr>"
    by (simp_all add: Let_def evs_def[symmetric] n_def[symmetric] m'_def[symmetric] g_def)
  from n(1) obtain k where k: "n = Suc k" by (cases n) auto
  have ins_evs: "inserts evs = map (\<lambda>j. (doc, g j)) [0..<n]"
    by (subst evs) (rule inserts_concat_retry)
  have before: "\<forall>j\<in>set [0..<k]. g j \<noteq> None"
  proof
    fix j assume "j \<in> set [0..<k]"
    then have "j < n" "Suc j \<noteq> n" using k by simp_all
    with stop show "g j \<noteq> None" by blast
  qed
  show ?thesis
  proof (cases "g k")
    case None
    have "(doc, None) \<in> set (inserts evs)"
      unfolding ins_evs k using None by (auto simp: image_iff intro: bexI[of _ k])
    moreover have "stored m' = stored m @ [doc]"
      unfolding m' k using None stored_all_failed[OF before, of doc] by simp
    ultimately show ?thesis
      unfolding Let_def evs_def[symmetric] m'_def[symmetric] by (simp add: inserted_def)
  next
    case (Some e)
    have n5: "n = 5"
    proof (rule ccontr)
      assume "n \<noteq> 5"
      with n(2) have "n < 5" by simp
      with short k have "g k = None" by simp
      with Some show False by simp
    qed
    have all: "\<forall>j\<in>set [0..<n]. g j \<noteq> None"
      using before Some k by (auto simp: less_Suc_eq)
    have "\<not> inserted doc evs"
      unfolding inserted_def ins_evs using all by auto
    moreover have "length (inserts evs) = 5"
      using n5 n_def by simp
    moreover have "sleeps evs = [0, 1, 4, 9, 16]"
      by (subst evs) (simp add: sleeps_concat_retry n5 upt_rec)
    moreover have "falloffs evs = [0, 1, 2, 3, 4]"
    proof -
      have "falloffs evs = map (\<lambda>j. j) [0..<n]"
        by (subst evs) (rule falloffs_all_failed[OF all])
      then show ?thesis by (simp add: n5 upt_rec)
    qed
    moreover have "length (error_entries evs) = 5"
    proof -
      have "error_entries evs = map (\<lambda>j. (the (g j), Some j)) [0..<n]"
        by (subst evs) (rule error_entries_all_failed[OF all])
      then show ?thesis by (simp add: n5)
    qed
    moreover have "stored m' = stored m"
      unfolding m' using stored_all_failed[OF all, of doc] by simp
    moreover have "\<forall>j<5. ins (calls m + j) doc \<noteq> None"
      using all unfolding n5 g_def by simp
    ultimately show ?thesis
      unfolding Let_def evs_def[symmetric] m'_def[symmetric] by simp
  qed
qed

section \<open>One iteration of the worker loop\<close>

lemma Insert_eq:
  "Insert ins doc m =
     (ins (calls m) doc,
      case ins (calls m) doc of
        None \<Rightarrow> m\<lparr>calls := Suc (calls m), stored := stored m @ [doc]\<rparr>
      | Some e \<Rightarrow> m\<lparr>calls := Suc (calls m)\<rparr>)"
  by (simp add: Insert_def split: option.splits)

text \<open>The iteration when line 146 or 149 is reached, and when neither is.\<close>

lemma writeLoop_body_inserting:
  assumes "\<not> isWhitelisted (Whitelist d) placeholder \<or> ImportWl d"
  shows "writeLoop_body ins err doc d =
     (case ins (calls (Ssn d)) doc of
        None \<Rightarrow>
          ([SsnCopy, InsertCall doc None, SsnClose], None,
           d\<lparr>Ssn := (Ssn d)\<lparr>calls := Suc (calls (Ssn d)), stored := stored (Ssn d) @ [doc]\<rparr>\<rparr>)
      | Some e \<Rightarrow>
          ([SsnCopy, InsertCall doc (Some e)]
             @ (if Contains e ''ObjectIDs'' then [Dump (Doc doc)] else [])
             @ [LogError e None]
             @ fst (expFalloff ins doc (d\<lparr>Ssn := (Ssn d)\<lparr>calls := Suc (calls (Ssn d))\<rparr>\<rparr>))
             @ [SsnClose],
           Some e,
           snd (expFalloff ins doc (d\<lparr>Ssn := (Ssn d)\<lparr>calls := Suc (calls (Ssn d))\<rparr>\<rparr>))))"
  using assms
  by (auto simp: writeLoop_body_def Insert_eq Let_def case_prod_beta split: option.splits)

lemma writeLoop_body_skipping:
  assumes "isWhitelisted (Whitelist d) placeholder" "\<not> ImportWl d"
  shows "writeLoop_body ins err doc d =
     (case err of
        None \<Rightarrow> ([SsnCopy, SsnClose], None, d)
      | Some e \<Rightarrow>
          ([SsnCopy]
             @ (if Contains e ''ObjectIDs'' then [Dump (Doc doc)] else [])
             @ [LogError e None]
             @ fst (expFalloff ins doc d)
             @ [SsnClose],
           Some e,
           snd (expFalloff ins doc d)))"
  using assms
  by (auto simp: writeLoop_body_def Let_def case_prod_beta split: option.splits)

lemma expFalloff_fst: "fst (expFalloff ins doc d) = fst (expFalloff_for ins 0 doc (Ssn d))"
  by (simp add: expFalloff_def case_prod_beta)

lemma expFalloff_snd: "snd (expFalloff ins doc d) = d\<lparr>Ssn := snd (expFalloff_for ins 0 doc (Ssn d))\<rparr>"
  by (simp add: expFalloff_def case_prod_beta)

lemma writeLoop_body_inserts_first:
  "inserts_first (fst (writeLoop_body ins err doc d))
     = (\<not> isWhitelisted (Whitelist d) placeholder \<or> ImportWl d)"
proof (cases "\<not> isWhitelisted (Whitelist d) placeholder \<or> ImportWl d")
  case True
  then show ?thesis
    by (simp add: writeLoop_body_inserting split: option.splits)
next
  case False
  then show ?thesis
    by (simp add: writeLoop_body_skipping split: option.splits)
qed

text \<open>
  Claim C9. Whether an iteration calls \<open>Insert\<close> itself is decided by the whitelist and
  the import flag of the writer alone: two iterations under the same two settings decide
  alike, whatever their documents, their incoming \<open>err\<close>, the database's answers and
  the rest of the writer. The subject of the filter is the constant \<open>placeholder\<close>.
\<close>

theorem filter_decision_ignores_document:
  assumes "Whitelist d1 = Whitelist d2" and "ImportWl d1 = ImportWl d2"
  shows "inserts_first (fst (writeLoop_body ins1 err1 docA d1))
           = inserts_first (fst (writeLoop_body ins2 err2 docB d2))
         \<and> inserts_first (fst (writeLoop_body ins1 err1 docA d1))
           = (\<not> isWhitelisted (Whitelist d1) ''This is a cool wholesome string'' \<or> ImportWl d1)"
  unfolding writeLoop_body_inserts_first assms
  by (simp add: placeholder_def)

theorem filter_decision_ignores_document_witness:
  "Whitelist d_filtering = Whitelist (d_filtering\<lparr>started := True\<rparr>)
   \<and> ImportWl d_filtering = ImportWl (d_filtering\<lparr>started := True\<rparr>)
   \<and> \<not> inserts_first (fst (writeLoop_body always_down None doc0 d_filtering))
   \<and> \<not> inserts_first (fst (writeLoop_body (down_until 1) (Some ''stale'') doc1
                              (d_filtering\<lparr>started := True\<rparr>)))"
proof -
  have w: "Whitelist d_filtering = Whitelist (d_filtering\<lparr>started := True\<rparr>)"
    and i: "ImportWl d_filtering = ImportWl (d_filtering\<lparr>started := True\<rparr>)"
    by simp_all
  have f: "\<not> (\<not> isWhitelisted (Whitelist d_filtering) ''This is a cool wholesome string''
             \<or> ImportWl d_filtering)"
    by (simp add: d_filtering_def New_def isWhitelisted_def)
  note inst = filter_decision_ignores_document[OF w i,
      of always_down None doc0 "down_until 1" "Some ''stale''" doc1]
  from inst f have a: "\<not> inserts_first (fst (writeLoop_body always_down None doc0 d_filtering))"
    by blast
  with inst have "\<not> inserts_first (fst (writeLoop_body (down_until 1) (Some ''stale'') doc1
                              (d_filtering\<lparr>started := True\<rparr>)))"
    by blast
  with a w i show ?thesis by blast
qed





lemma expFalloff_for_calls:
  "calls (snd (expFalloff_for ins i doc m)) =
     calls m + length (inserts (fst (expFalloff_for ins i doc m)))"
  using expFalloff_for_shape[of ins i doc m] by (simp add: Let_def)

lemma expFalloff_for_inserts:
  "inserts (fst (expFalloff_for ins i doc m)) =
     map (\<lambda>j. (doc, ins (calls m + j) doc)) [0..<length (inserts (fst (expFalloff_for ins i doc m)))]"
proof -
  define evs where "evs = fst (expFalloff_for ins i doc m)"
  from expFalloff_for_shape[of ins i doc m]
  have "evs = concat (map (\<lambda>j. retry_pass doc (i + j) (ins (calls m + j) doc)) [0..<length (inserts evs)])"
    by (simp add: Let_def evs_def[symmetric])
  then have "inserts evs = inserts (concat (map (\<lambda>j. retry_pass doc (i + j) (ins (calls m + j) doc))
      [0..<length (inserts evs)]))"
    by simp
  then show ?thesis
    unfolding evs_def[symmetric] inserts_concat_retry .
qed

lemma expFalloff_for_all_failed:
  assumes "\<forall>j<5. ins (calls m + j) doc \<noteq> None"
  shows "let evs = fst (expFalloff_for ins 0 doc m); m' = snd (expFalloff_for ins 0 doc m) in
     \<not> inserted doc evs \<and> length (inserts evs) = 5 \<and> sleeps evs = [0, 1, 4, 9, 16]
     \<and> falloffs evs = [0, 1, 2, 3, 4] \<and> length (error_entries evs) = 5
     \<and> stored m' = stored m \<and> calls m' = calls m + 5"
proof -
  define evs where "evs = fst (expFalloff_for ins 0 doc m)"
  define n where "n = length (inserts evs)"
  have n: "n \<le> 5"
    using expFalloff_for_shape[of ins 0 doc m] by (simp add: Let_def evs_def n_def)
  have ie: "inserts evs = map (\<lambda>j. (doc, ins (calls m + j) doc)) [0..<n]"
    unfolding evs_def n_def by (rule expFalloff_for_inserts)
  have nf: "ins (calls m + j) doc \<noteq> None" if "j < n" for j
    using that n assms by simp
  have "\<not> inserted doc evs"
  proof
    assume "inserted doc evs"
    then have "(doc, None) \<in> set (map (\<lambda>j. (doc, ins (calls m + j) doc)) [0..<n])"
      unfolding inserted_def ie .
    then obtain j where "j < n" "ins (calls m + j) doc = None"
      by auto
    with nf show False by blast
  qed
  with expFalloff_for_outcome[of ins doc m] expFalloff_for_calls[of ins 0 doc m]
  show ?thesis
    by (simp add: Let_def evs_def)
qed

text \<open>
  Claim C4, as the code has it. When the iteration calls \<open>Insert\<close> itself (the filter
  does not match, or the import flag is on) and the database refuses six calls in a row,
  the iteration makes exactly six insert attempts, one in the loop and five in the retry
  loop, none of which succeeds; it sleeps 0, 1, 4, 9 and 16 seconds, 30 in all; it
  writes six error entries, one per failed attempt; and the document is not stored.
\<close>

theorem six_attempts_then_dropped:
  assumes "\<not> isWhitelisted (Whitelist d) placeholder \<or> ImportWl d"
    and "\<forall>i<6. ins (calls (Ssn d) + i) doc \<noteq> None"
  shows "case writeLoop_body ins err doc d of
     (evs, err', d') \<Rightarrow>
       length (inserts evs) = 6 \<and> \<not> inserted doc evs
       \<and> sleeps evs = [0, 1, 4, 9, 16] \<and> sum_list (sleeps evs) = 30
       \<and> length (error_entries evs) = 6
       \<and> stored (Ssn d') = stored (Ssn d) \<and> calls (Ssn d') = calls (Ssn d) + 6"
proof -
  from assms(2) obtain e where e: "ins (calls (Ssn d)) doc = Some e"
    by (metis add.right_neutral not_None_eq zero_less_numeral)
  define d1 where "d1 = d\<lparr>Ssn := (Ssn d)\<lparr>calls := Suc (calls (Ssn d))\<rparr>\<rparr>"
  have "\<forall>j<5. ins (calls (Ssn d1) + j) doc \<noteq> None"
  proof (intro allI impI)
    fix j :: nat assume "j < 5"
    then have "Suc j < 6" by simp
    with assms(2) have "ins (calls (Ssn d) + Suc j) doc \<noteq> None" by blast
    then show "ins (calls (Ssn d1) + j) doc \<noteq> None" by (simp add: d1_def)
  qed
  from expFalloff_for_all_failed[where ins = ins and m = "Ssn d1" and doc = doc, OF this]
  have r: "\<not> inserted doc (fst (expFalloff ins doc d1))"
    "length (inserts (fst (expFalloff ins doc d1))) = 5"
    "sleeps (fst (expFalloff ins doc d1)) = [0, 1, 4, 9, 16]"
    "length (error_entries (fst (expFalloff ins doc d1))) = 5"
    "stored (Ssn (snd (expFalloff ins doc d1))) = stored (Ssn d)"
    "calls (Ssn (snd (expFalloff ins doc d1))) = calls (Ssn d) + 6"
    by (simp_all add: Let_def expFalloff_fst expFalloff_snd d1_def)
  show ?thesis
    using r
    by (simp add: writeLoop_body_inserting[OF assms(1)] e d1_def[symmetric] inserted_def)
qed

theorem six_attempts_then_dropped_witness:
  "\<not> isWhitelisted (Whitelist d0) placeholder
   \<and> always_down (calls (Ssn d0) + 5) doc0 \<noteq> None
   \<and> inserts (fst (writeLoop_body always_down None doc0 d0)) =
       replicate 6 (doc0, Some ''no reachable servers'')
   \<and> sum_list (sleeps (fst (writeLoop_body always_down None doc0 d0))) = 30
   \<and> stored (Ssn (snd (snd (writeLoop_body always_down None doc0 d0)))) = []"
proof -
  have f: "\<not> isWhitelisted (Whitelist d0) placeholder \<or> ImportWl d0"
    by (simp add: d0_def New_def isWhitelisted_def)
  have a: "\<forall>i<6. always_down (calls (Ssn d0) + i) doc0 \<noteq> None"
    by (simp add: always_down_def)
  have i: "inserts (fst (writeLoop_body always_down None doc0 d0)) =
       replicate 6 (doc0, Some ''no reachable servers'')"
    by (simp add: writeLoop_body_inserting[OF f] always_down_def expFalloff_fst
        expFalloff_for.simps Insert_def numeral_eq_Suc)
  have s: "stored (Ssn d0) = []"
    by (simp add: d0_def New_def mongo0_def)
  from six_attempts_then_dropped[where d = d0 and ins = always_down and doc = doc0
      and err = None, OF f a] i s show ?thesis
    by (simp add: case_prod_beta always_down_def d0_def New_def isWhitelisted_def)
qed

text \<open>
  The claim as the spec words it counts five attempts in total. With the database down
  and no filter the iteration makes six.
\<close>

theorem five_attempts_counterexample:
  "length (inserts (fst (writeLoop_body always_down None doc0 d0))) = 6"
  by (simp add: writeLoop_body_def d0_def New_def isWhitelisted_def always_down_def
      expFalloff_def expFalloff_for.simps Insert_def)


section \<open>Starting the pool\<close>

lemma Start_for_eq:
  "Start_for i count w =
     (if i < count
      then w\<lparr>dw := (dw w)\<lparr>started := True\<rparr>,
             goroutines := goroutines w @ replicate (nat (count - i)) Spawned\<rparr>
      else w)"
proof (induction i count w rule: Start_for.induct)
  case (1 i count w)
  show ?case
  proof (cases "i < count")
    case False
    then show ?thesis by (simp add: Start_for.simps[of i count w])
  next
    case True
    then have n: "nat (count - i) = Suc (nat (count - (i + 1)))" by simp
    show ?thesis
      using True "1.IH"[OF True]
      by (simp add: Start_for.simps[of i count w] n replicate_append_same del: replicate_Suc)
        (simp add: replicate_append_same[symmetric])
  qed
qed

text \<open>
  Claim C6, as the code has it. A call of \<open>Start\<close> on a started writer changes nothing,
  so the flag never goes back. On a writer not yet started, \<open>Start n\<close> with \<open>n\<close> at
  least 1 sets the flag and spawns exactly \<open>n\<close> goroutines, and a following \<open>Start m\<close>
  spawns none, whatever \<open>m\<close> is.
\<close>

theorem Start_once_started_is_noop:
  "(IsStarted (dw w) \<longrightarrow> Start m w = w)
   \<and> (\<not> IsStarted (dw w) \<and> 0 < n \<longrightarrow>
        IsStarted (dw (Start n w))
        \<and> goroutines (Start n w) = goroutines w @ replicate (nat n) Spawned
        \<and> Start m (Start n w) = Start n w
        \<and> length (goroutines (Start m (Start n w))) = length (goroutines w) + nat n)"
  by (simp add: Start_def IsStarted_def Start_for_eq)

theorem Start_once_started_is_noop_witness:
  "\<not> IsStarted (dw (boot d0)) \<and> (0::int) < 2
   \<and> goroutines (Start 5 (Start 2 (boot d0))) = [Spawned, Spawned]
   \<and> IsStarted (dw (Start 5 (Start 2 (boot d0))))"
proof -
  have a: "\<not> IsStarted (dw (boot d0))"
    by (simp add: IsStarted_def boot_def d0_def New_def)
  have g: "goroutines (boot d0) = []"
    by (simp add: boot_def)
  from Start_once_started_is_noop[of "boot d0" 5 2] a g show ?thesis
    by (simp add: numeral_eq_Suc)
qed

text \<open>
  The claim as the spec words it holds for all counts. A first call with count 0 runs
  no pass of the loop, so it leaves the flag unset and the second call spawns.
\<close>

theorem Start_zero_counterexample:
  "length (goroutines (Start 3 (Start 0 (boot d0)))) = 3"
  by (simp add: Start_def Start_for_eq boot_def d0_def New_def numeral_eq_Suc)


section \<open>Frames: what a step leaves alone\<close>

lemma writeLoop_body_dw:
  "snd (snd (writeLoop_body ins err doc d)) =
     d\<lparr>Ssn := Ssn (snd (snd (writeLoop_body ins err doc d)))\<rparr>"
proof (cases "\<not> isWhitelisted (Whitelist d) placeholder \<or> ImportWl d")
  case True
  then show ?thesis
    by (simp add: writeLoop_body_inserting expFalloff_snd split: option.splits)
next
  case False
  then show ?thesis
    by (simp add: writeLoop_body_skipping expFalloff_snd split: option.splits)
qed

lemma seen_fold: "fold (\<lambda>aval seen. if aval = x then True else seen) xs b = (b \<or> x \<in> set xs)"
  by (induction xs arbitrary: b) auto

lemma Write_locked_eq:
  "Write_locked doc d =
     (doc\<lparr>DB := pre d @ DB doc\<rparr>,
      if pre d @ DB doc \<in> set (Databases d) then d
      else d\<lparr>Meta := Meta d @ [pre d @ DB doc], Databases := Databases d @ [pre d @ DB doc]\<rparr>)"
  by (simp add: Write_locked_def Let_def seen_fold)

text \<open>The step of a goroutine, place by place.\<close>

lemma writeLoop_step_cases:
  "writeLoop_step ins k w =
     (case goroutines w ! k of
        Spawned \<Rightarrow>
          w\<lparr>dw := (dw w)\<lparr>wg := Suc (wg (dw w))\<rparr>, goroutines := (goroutines w)[k := LoopTop None]\<rparr>
      | LoopTop err \<Rightarrow>
          w\<lparr>trace := trace w @ [LogStatus (length (buf (wchan (dw w))))],
            goroutines := (goroutines w)[k := AtRecv err]\<rparr>
      | AtRecv err \<Rightarrow>
          (case buf (wchan (dw w)) of
             [] \<Rightarrow>
               if \<not> closed (wchan (dw w)) then w
               else if wg (dw w) = 0
               then w\<lparr>trace := trace w @ [LogInfo ''WriteLoop got closed channel, exiting'', SsnClose],
                      panicked := Some ''sync: negative WaitGroup counter''\<rparr>
               else w\<lparr>dw := (dw w)\<lparr>wg := wg (dw w) - 1\<rparr>,
                      trace := trace w @ [LogInfo ''WriteLoop got closed channel, exiting'', SsnClose],
                      goroutines := (goroutines w)[k := Exited]\<rparr>
           | doc # rest \<Rightarrow>
               w\<lparr>dw := (dw w)\<lparr>wchan := (wchan (dw w))\<lparr>buf := rest\<rparr>\<rparr>,
                 goroutines := (goroutines w)[k := Working err doc]\<rparr>)
      | Working err doc \<Rightarrow>
          (let r = writeLoop_body ins err doc (dw w)
           in w\<lparr>dw := (dw w)\<lparr>Ssn := Ssn (snd (snd r))\<rparr>,
                trace := trace w @ fst r,
                handled := handled w @ [(doc, fst r)],
                goroutines := (goroutines w)[k := LoopTop (fst (snd r))]\<rparr>)
      | Exited \<Rightarrow> w)"
proof -
  have b: "snd (snd (writeLoop_body ins err doc d)) =
     d\<lparr>Ssn := Ssn (snd (snd (writeLoop_body ins err doc d)))\<rparr>" for err doc and d :: "'a DocWriter"
    by (rule writeLoop_body_dw)
  show ?thesis
    by (simp add: writeLoop_step_def chan_recv_def Let_def case_prod_beta b[symmetric]
        split: goroutine.splits list.splits)
qed

lemma Start_dw:
  "dw (Start count w) = (if \<not> started (dw w) \<and> 0 < count then (dw w)\<lparr>started := True\<rparr> else dw w)"
  by (simp add: Start_def Start_for_eq)

lemma Start_fields [simp]:
  "inflight (Start count w) = inflight w" "sent (Start count w) = sent w"
  "handled (Start count w) = handled w" "panicked (Start count w) = panicked w"
  "flushing (Start count w) = flushing w" "flushed (Start count w) = flushed w"
  "trace (Start count w) = trace w"
  by (simp_all add: Start_def Start_for_eq)

lemma writeLoop_step_names [simp]:
  "Databases (dw (writeLoop_step ins k w)) = Databases (dw w)"
  "Meta (dw (writeLoop_step ins k w)) = Meta (dw w)"
  "inflight (writeLoop_step ins k w) = inflight w"
  "sent (writeLoop_step ins k w) = sent w"
  by (simp_all add: writeLoop_step_cases Let_def split: goroutine.splits list.splits)

section \<open>The registry of database names\<close>

lemma registered_step: "registered dbs w \<Longrightarrow> registered dbs (step ins a w)"
proof (cases "panicked w")
  case (Some msg)
  assume "registered dbs w"
  with Some show ?thesis by (simp add: step_def)
next
  case None
  assume r: "registered dbs w"
  show ?thesis
  proof (cases a)
    case (CallStart count)
    with None r show ?thesis
      by (auto simp: step_def registered_def Start_dw)
  next
    case (CallWrite doc)
    with None r show ?thesis
      by (auto simp: step_def registered_def Write_locked_eq list_all_iff)
  next
    case (Send k)
    show ?thesis
    proof (cases "k < length (inflight w)")
      case False
      with None r Send show ?thesis by (simp add: step_def)
    next
      case True
      then have "inflight w ! k \<in> set (inflight w)" by simp
      moreover have "set (take k (inflight w)) \<subseteq> set (inflight w)"
        "set (drop (Suc k) (inflight w)) \<subseteq> set (inflight w)"
        by (rule set_take_subset, rule set_drop_subset)
      ultimately show ?thesis
        using None r Send True
        by (auto simp: step_def registered_def Write_send_def chan_send_def list_all_iff)
    qed
  next
    case FlushClose
    with None r show ?thesis
      by (auto simp: step_def registered_def Flush_close_def chan_close_def)
  next
    case FlushWait
    with None r show ?thesis
      by (auto simp: step_def registered_def Flush_wait_def)
  next
    case (Run k)
    with None r show ?thesis
      by (auto simp: step_def registered_def)
  qed
qed

lemma registered_run: "registered dbs w \<Longrightarrow> registered dbs (run ins acts w)"
  unfolding run_def by (induction acts arbitrary: w) (simp_all add: registered_step)

lemma registered_boot: "distinct dbs \<Longrightarrow> registered dbs (boot (New ssn p iw wl dbs))"
  by (simp add: registered_def boot_def New_def)

text \<open>
  Claim C7. Start from a writer whose list of known names, as \<open>GetDatabases\<close> returned
  it, has no name twice. Then after any schedule, that is under any interleaving of the
  locked parts of producers' \<open>Write\<close> calls with their sends, with \<open>Flush\<close> and with the
  goroutines: the names known are the initial ones followed by the names reported to
  \<open>AddNewDB\<close>, and no name occurs twice in that list, so each name was added and
  reported at most once and never when it was known already; and the (prefixed) name of
  every document that has left the locked part of a \<open>Write\<close>, in particular of every
  document whose \<open>Write\<close> has returned, is known.
\<close>

theorem names_registered_once:
  assumes "distinct dbs"
  shows "let w = run ins acts (boot (New ssn p iw wl dbs)) in
     Databases (dw w) = dbs @ Meta (dw w)
     \<and> distinct (Databases (dw w)) \<and> distinct (Meta (dw w))
     \<and> set dbs \<inter> set (Meta (dw w)) = {}
     \<and> (\<forall>doc\<in>set (inflight w) \<union> set (sent w). DB doc \<in> set (Databases (dw w)))"
proof -
  define w where "w = run ins acts (boot (New ssn p iw wl dbs))"
  have "registered dbs w"
    unfolding w_def by (intro registered_run registered_boot assms)
  then have a: "Databases (dw w) = dbs @ Meta (dw w)" and b: "distinct (Databases (dw w))"
    and c: "\<forall>doc\<in>set (inflight w) \<union> set (sent w). DB doc \<in> set (Databases (dw w))"
    by (auto simp: registered_def list_all_iff)
  from b have "distinct (dbs @ Meta (dw w))" unfolding a .
  then have "distinct (Meta (dw w))" "set dbs \<inter> set (Meta (dw w)) = {}"
    by simp_all
  with a b c show ?thesis
    unfolding Let_def w_def[symmetric] by blast
qed

theorem names_registered_once_witness:
  "distinct [''rita-old'']
   \<and> Meta (dw (run always_down [CallWrite doc0, CallWrite doc1, Send 1, CallWrite doc0]
                (boot (New mongo0 ''rita-'' False None [''rita-old''])))) = [''rita-flows'']
   \<and> DB (hd (sent (run always_down [CallWrite doc0, CallWrite doc1, Send 1, CallWrite doc0]
                (boot (New mongo0 ''rita-'' False None [''rita-old'']))))) = ''rita-flows''
   \<and> ''rita-flows'' \<in> set (Databases (dw (run always_down [CallWrite doc0, CallWrite doc1, Send 1, CallWrite doc0]
                (boot (New mongo0 ''rita-'' False None [''rita-old''])))))"
proof -
  have d: "distinct [''rita-old'']" by simp
  have m: "Meta (dw (run always_down [CallWrite doc0, CallWrite doc1, Send 1, CallWrite doc0]
                (boot (New mongo0 ''rita-'' False None [''rita-old''])))) = [''rita-flows'']"
    by (simp add: run_def step_def boot_def New_def Write_locked_eq doc0_def doc1_def
        Write_send_def chan_send_def wchan_cap_def)
  have s: "sent (run always_down [CallWrite doc0, CallWrite doc1, Send 1, CallWrite doc0]
                (boot (New mongo0 ''rita-'' False None [''rita-old''])))
           = [doc1\<lparr>DB := ''rita-flows''\<rparr>]"
    by (simp add: run_def step_def boot_def New_def Write_locked_eq doc0_def doc1_def
        Write_send_def chan_send_def wchan_cap_def)
  from names_registered_once[OF d, of always_down
      "[CallWrite doc0, CallWrite doc1, Send 1, CallWrite doc0]" mongo0 "''rita-''" False None]
  show ?thesis
    unfolding Let_def m s by simp
qed


section \<open>Every iteration resolves its document\<close>

lemma falloffs_simps [simp]:
  "falloffs [] = []"
  "falloffs (LogError e None # es) = falloffs es"
  "falloffs (LogError e (Some i) # es) = i # falloffs es"
  "falloffs (SsnCopy # es) = falloffs es"
  "falloffs (SsnClose # es) = falloffs es"
  "falloffs (InsertCall doc r # es) = falloffs es"
  "falloffs (Dump x # es) = falloffs es"
  by (simp_all add: falloffs_def List.map_filter_simps)

lemma falloffs_append [simp]: "falloffs (xs @ ys) = falloffs xs @ falloffs ys"
  by (simp add: falloffs_def List.map_filter_def)

lemma timeline_Cons [simp]:
  "timeline (Sleep n # es) = Sleep n # timeline es"
  "timeline (InsertCall doc r # es) = InsertCall doc r # timeline es"
  "timeline (SsnCopy # es) = timeline es"
  "timeline (SsnClose # es) = timeline es"
  "timeline (LogInfo t # es) = timeline es"
  "timeline (LogError t f # es) = timeline es"
  "timeline (Dump x # es) = timeline es"
  "timeline (LogDebug t # es) = timeline es"
  "timeline (LogStatus k # es) = timeline es"
  by (simp_all add: timeline_def)

lemma expFalloff_for_failed_passes:
  assumes "\<forall>j<5. ins (calls m + j) doc \<noteq> None"
  shows "failed_passes doc [0, 1, 4, 9, 16] (timeline (fst (expFalloff_for ins 0 doc m)))"
proof -
  define evs where "evs = fst (expFalloff_for ins 0 doc m)"
  have g: "ins (calls m + j) doc \<noteq> None" if "j < 5" for j
    using assms that by blast
  have n: "length (inserts evs) = 5"
    using expFalloff_for_all_failed[where ins = ins and m = m and doc = doc, OF assms]
    by (simp add: Let_def evs_def)
  from expFalloff_for_shape[of ins 0 doc m]
  have "evs = concat (map (\<lambda>j. retry_pass doc j (ins (calls m + j) doc)) [0..<5])"
    by (simp add: Let_def evs_def[symmetric] n)
  then have "timeline evs =
      concat (map (\<lambda>j. [Sleep (j * j), InsertCall doc (ins (calls m + j) doc)]) [0..<5])"
    by (simp only: timeline_concat_retry)
  moreover have "ins (calls m) doc \<noteq> None" "ins (Suc (calls m)) doc \<noteq> None"
    "ins (Suc (Suc (calls m))) doc \<noteq> None" "ins (Suc (Suc (Suc (calls m)))) doc \<noteq> None"
    "ins (Suc (Suc (Suc (Suc (calls m))))) doc \<noteq> None"
    using g[of 0] g[of "Suc 0"] g[of "Suc (Suc 0)"] g[of "Suc (Suc (Suc 0))"]
      g[of "Suc (Suc (Suc (Suc 0)))"]
    by simp_all
  ultimately show ?thesis
    unfolding evs_def[symmetric] by (simp add: upt_rec)
qed

lemma failed_passes_starts_with_sleep:
  "failed_passes doc (s # ss) es \<Longrightarrow> \<exists>n rest. es = Sleep n # rest"
  by (cases "(doc, s # ss, es)" rule: failed_passes.cases) auto

lemma expFalloff_resolves:
  "inserted doc (fst (expFalloff ins doc d))
   \<or> (\<not> inserted doc (fst (expFalloff ins doc d))
       \<and> falloffs (fst (expFalloff ins doc d)) = [0, 1, 2, 3, 4]
       \<and> failed_passes doc [0, 1, 4, 9, 16] (timeline (fst (expFalloff ins doc d))))"
proof (cases "inserted doc (fst (expFalloff ins doc d))")
  case True
  then show ?thesis by simp
next
  case False
  with expFalloff_for_outcome[of ins doc "Ssn d"]
  have f: "falloffs (fst (expFalloff ins doc d)) = [0, 1, 2, 3, 4]"
    and a: "\<forall>j<5. ins (calls (Ssn d) + j) doc \<noteq> None"
    by (simp_all add: Let_def expFalloff_fst)
  from expFalloff_for_failed_passes[where ins = ins and m = "Ssn d" and doc = doc, OF a] False f
  show ?thesis
    by (simp add: expFalloff_fst)
qed

lemma writeLoop_body_resolved: "resolved d doc (fst (writeLoop_body ins err doc d))"
proof (cases "\<not> isWhitelisted (Whitelist d) placeholder \<or> ImportWl d")
  case True
  show ?thesis
  proof (cases "ins (calls (Ssn d)) doc")
    case None
    with True show ?thesis
      by (simp add: writeLoop_body_inserting resolved_def inserted_def)
  next
    case (Some e)
    define d1 where "d1 = d\<lparr>Ssn := (Ssn d)\<lparr>calls := Suc (calls (Ssn d))\<rparr>\<rparr>"
    from expFalloff_resolves[of doc ins d1] True Some show ?thesis
      by (auto simp: writeLoop_body_inserting resolved_def inserted_def exhausted_def d1_def)
  qed
next
  case False
  then have f: "isWhitelisted (Whitelist d) placeholder" "\<not> ImportWl d" by simp_all
  show ?thesis
  proof (cases err)
    case None
    with f show ?thesis
      by (simp add: writeLoop_body_skipping resolved_def skipped_def)
  next
    case (Some e)
    show ?thesis
    proof (cases "inserted doc (fst (expFalloff ins doc d))")
      case True
      with f Some show ?thesis
        by (simp add: writeLoop_body_skipping resolved_def inserted_def)
    next
      case False
      with expFalloff_resolves[of doc ins d]
      have fo: "falloffs (fst (expFalloff ins doc d)) = [0, 1, 2, 3, 4]"
        and fp: "failed_passes doc [0, 1, 4, 9, 16] (timeline (fst (expFalloff ins doc d)))"
        by simp_all
      from failed_passes_starts_with_sleep[OF fp] obtain n rest
        where tm: "timeline (fst (expFalloff ins doc d)) = Sleep n # rest"
        by blast
      from fp have "failed_passes doc [0, 1, 4, 9, 16] (Sleep n # rest)"
        unfolding tm .
      with f Some False fo tm show ?thesis
        by (simp add: writeLoop_body_skipping resolved_def inserted_def exhausted_def)
    qed
  qed
qed

section \<open>What every schedule keeps true\<close>

lemma resolved_config:
  "Whitelist d' = Whitelist d \<Longrightarrow> ImportWl d' = ImportWl d \<Longrightarrow> resolved d' = resolved d"
  by (simp add: resolved_def skipped_def fun_eq_iff)

lemma step_config:
  "Whitelist (dw (step ins a w)) = Whitelist (dw w) \<and> ImportWl (dw (step ins a w)) = ImportWl (dw w)"
proof (cases a)
  case (Run k)
  then show ?thesis
    by (simp add: step_def writeLoop_step_cases Let_def split: goroutine.splits list.splits)
qed (simp_all add: step_def Start_dw Write_locked_eq Write_send_def chan_send_def
      Flush_close_def chan_close_def Flush_wait_def)

lemma filter_update_count:
  "k < length xs \<Longrightarrow>
   length (filter P (xs[k := y])) + (if P (xs ! k) then 1 else 0)
     = length (filter P xs) + (if P y then 1 else 0)"
proof (induction xs arbitrary: k)
  case Nil
  then show ?case by simp
next
  case (Cons x xs)
  show ?case
  proof (cases k)
    case 0
    then show ?thesis by simp
  next
    case (Suc j)
    with Cons.prems have "j < length xs" by simp
    from Cons.IH[OF this] Suc show ?thesis by simp
  qed
qed

lemma filter_count_pos: "k < length xs \<Longrightarrow> P (xs ! k) \<Longrightarrow> 0 < length (filter P xs)"
  by (metis filter_empty_conv length_greater_0_conv nth_mem)

lemma handled_step:
  "handled (step ins a w) =
     (case a of
        Run k \<Rightarrow>
          if panicked w = None \<and> k < length (goroutines w) then
            (case goroutines w ! k of
               Working err doc \<Rightarrow>
                 handled w @ [(doc, fst (writeLoop_body ins err doc (dw w)))]
             | _ \<Rightarrow> handled w)
          else handled w
      | _ \<Rightarrow> handled w)"
proof (cases a)
  case (Run k)
  then show ?thesis
    by (simp add: step_def writeLoop_step_cases Let_def split: goroutine.splits list.splits)
next
  case (Send k)
  then show ?thesis
    by (simp add: step_def Write_send_def chan_send_def)
next
  case (CallWrite doc)
  then show ?thesis
    by (simp add: step_def Write_locked_eq)
qed (simp_all add: step_def Flush_close_def chan_close_def Flush_wait_def)

lemma settled_step: "settled w \<Longrightarrow> settled (step ins a w)"
proof -
  assume s: "settled w"
  have cfg: "resolved (dw (step ins a w)) = resolved (dw w)"
    by (rule resolved_config) (simp_all add: step_config)
  have r: "resolved (dw w) doc (fst (writeLoop_body ins err doc (dw w)))" for doc err
    by (rule writeLoop_body_resolved)
  have "list_all (\<lambda>(doc, evs). resolved (dw w) doc evs) (handled (step ins a w))"
  proof (cases "handled (step ins a w) = handled w")
    case True
    with s show ?thesis by (simp add: settled_def)
  next
    case False
    then obtain doc err where
      "handled (step ins a w) = handled w @ [(doc, fst (writeLoop_body ins err doc (dw w)))]"
      unfolding handled_step
      by (auto split: action.splits goroutine.splits if_splits)
    with s r show ?thesis by (simp add: settled_def)
  qed
  then show ?thesis
    unfolding settled_def cfg .
qed

lemma same_documents_iff:
  "same_documents xs ys = (\<forall>x. count_list xs x = count_list ys x)"
proof
  assume a: "same_documents xs ys"
  show "\<forall>x. count_list xs x = count_list ys x"
  proof
    fix x
    show "count_list xs x = count_list ys x"
    proof (cases "x \<in> set (xs @ ys)")
      case True
      with a show ?thesis
        unfolding same_documents_def list_all_iff by blast
    next
      case False
      then have "count_list xs x = 0" and "count_list ys x = 0"
        by (simp_all add: count_list_0_iff)
      then show ?thesis by simp
    qed
  qed
next
  assume "\<forall>x. count_list xs x = count_list ys x"
  then show "same_documents xs ys"
    by (simp add: same_documents_def list_all_iff)
qed

lemma in_hand_update:
  "k < length gs \<Longrightarrow>
   count_list (concat (map in_hand (gs[k := g]))) x + count_list (in_hand (gs ! k)) x
     = count_list (concat (map in_hand gs)) x + count_list (in_hand g) x"
proof (induction gs arbitrary: k)
  case Nil
  then show ?case by simp
next
  case (Cons a gs)
  show ?case
  proof (cases k)
    case 0
    then show ?thesis by simp
  next
    case (Suc j)
    with Cons.prems have "j < length gs" by simp
    from Cons.IH[OF this] Suc show ?thesis by simp
  qed
qed

text \<open>Where the documents are after a step of a goroutine, counted one by one.\<close>

lemma whereabouts_writeLoop_step:
  assumes "k < length (goroutines w)"
  shows "count_list (whereabouts (writeLoop_step ins k w)) x = count_list (whereabouts w) x"
proof -
  note u = in_hand_update[OF assms, of _ x]
  show ?thesis
  proof (cases "goroutines w ! k")
    case Spawned
    with u[of "LoopTop None"] show ?thesis
      by (simp add: writeLoop_step_cases whereabouts_def busy_def)
  next
    case (LoopTop err)
    with u[of "AtRecv err"] show ?thesis
      by (simp add: writeLoop_step_cases whereabouts_def busy_def)
  next
    case (AtRecv err)
    show ?thesis
    proof (cases "buf (wchan (dw w))")
      case Nil
      with AtRecv u[of Exited] show ?thesis
        by (simp add: writeLoop_step_cases whereabouts_def busy_def)
    next
      case (Cons doc rest)
      with AtRecv u[of "Working err doc"] show ?thesis
        by (simp add: writeLoop_step_cases whereabouts_def busy_def)
    qed
  next
    case (Working err doc)
    with u[of "LoopTop (fst (snd (writeLoop_body ins err doc (dw w))))"] show ?thesis
      by (auto simp: writeLoop_step_cases whereabouts_def busy_def Let_def split: if_splits)
  next
    case Exited
    then show ?thesis
      by (simp add: writeLoop_step_cases)
  qed
qed

lemma conserved_step: "conserved w \<Longrightarrow> conserved (step ins a w)"
proof (cases a)
  case (Run k)
  assume "conserved w"
  with Run show ?thesis
    by (simp add: conserved_def same_documents_iff step_def whereabouts_writeLoop_step)
next
  case (Send k)
  assume "conserved w"
  with Send show ?thesis
    by (auto simp: conserved_def same_documents_iff whereabouts_def busy_def step_def
        Write_send_def chan_send_def)
next
  case (CallStart count)
  assume "conserved w"
  with CallStart show ?thesis
    by (simp add: conserved_def same_documents_iff whereabouts_def busy_def step_def
        Start_dw Start_def Start_for_eq)
next
  case (CallWrite doc)
  assume "conserved w"
  with CallWrite show ?thesis
    by (simp add: conserved_def same_documents_iff whereabouts_def busy_def step_def
        Write_locked_eq)
next
  case FlushClose
  assume "conserved w"
  with FlushClose show ?thesis
    by (simp add: conserved_def same_documents_iff whereabouts_def busy_def step_def
        Flush_close_def chan_close_def)
next
  case FlushWait
  assume "conserved w"
  with FlushWait show ?thesis
    by (simp add: conserved_def same_documents_iff whereabouts_def busy_def step_def
        Flush_wait_def)
qed

lemma Start_goroutines:
  "goroutines (Start count w) =
     goroutines w @ (if started (dw w) then [] else replicate (nat count) Spawned)"
  by (simp add: Start_def Start_for_eq)

lemma filter_in_loop_replicate [simp]: "filter in_loop (replicate n Spawned) = []"
  by (induction n) simp_all

lemma counted_step: "counted w \<Longrightarrow> counted (step ins a w)"
proof (cases a)
  case (Run k)
  assume c: "counted w"
  show ?thesis
  proof (cases "panicked w = None \<and> k < length (goroutines w)")
    case False
    with c Run show ?thesis by (auto simp: step_def)
  next
    case True
    then have k: "k < length (goroutines w)" by simp
    note u = filter_update_count[OF k, of in_loop]
    show ?thesis
    proof (cases "goroutines w ! k")
      case Spawned
      with c Run True u[of "LoopTop None"] show ?thesis
        by (simp add: counted_def step_def writeLoop_step_cases)
    next
      case (LoopTop err)
      with c Run True u[of "AtRecv err"] show ?thesis
        by (simp add: counted_def step_def writeLoop_step_cases)
    next
      case (AtRecv err)
      with c Run True u[of Exited] u[of "Working err doc" for doc] show ?thesis
        by (auto simp: counted_def step_def writeLoop_step_cases Let_def split: list.splits)
    next
      case (Working err doc)
      with c Run True u[of "LoopTop e" for e] show ?thesis
        by (simp add: counted_def step_def writeLoop_step_cases Let_def)
    next
      case Exited
      with c Run True show ?thesis
        by (simp add: counted_def step_def writeLoop_step_cases)
    qed
  qed
next
  case (Send k)
  assume "counted w"
  with Send show ?thesis
    by (simp add: counted_def step_def Write_send_def chan_send_def)
next
  case (CallStart count)
  assume "counted w"
  with CallStart show ?thesis
    by (simp add: counted_def step_def Start_dw Start_goroutines)
next
  case (CallWrite doc)
  assume "counted w"
  with CallWrite show ?thesis
    by (simp add: counted_def step_def Write_locked_eq)
next
  case FlushClose
  assume "counted w"
  with FlushClose show ?thesis
    by (simp add: counted_def step_def Flush_close_def chan_close_def)
next
  case FlushWait
  assume "counted w"
  with FlushWait show ?thesis
    by (simp add: counted_def step_def Flush_wait_def)
qed


lemma closed_step: "closed (wchan (dw w)) \<Longrightarrow> closed (wchan (dw (step ins a w)))"
proof (cases a)
  case (Run k)
  assume "closed (wchan (dw w))"
  with Run show ?thesis
    by (simp add: step_def writeLoop_step_cases Let_def split: goroutine.splits list.splits)
next
  case (Send k)
  assume "closed (wchan (dw w))"
  with Send show ?thesis
    by (simp add: step_def Write_send_def chan_send_def)
next
  case (CallStart count)
  assume "closed (wchan (dw w))"
  with CallStart show ?thesis
    by (simp add: step_def Start_dw)
next
  case (CallWrite doc)
  assume "closed (wchan (dw w))"
  with CallWrite show ?thesis
    by (simp add: step_def Write_locked_eq)
next
  case FlushClose
  assume "closed (wchan (dw w))"
  with FlushClose show ?thesis
    by (simp add: step_def Flush_close_def chan_close_def)
next
  case FlushWait
  assume "closed (wchan (dw w))"
  with FlushWait show ?thesis
    by (simp add: step_def Flush_wait_def)
qed

lemma shut_step: "shut w \<Longrightarrow> shut (step ins a w)"
proof (cases a)
  case (Run k)
  assume "shut w"
  with Run show ?thesis
    by (auto simp: shut_def step_def writeLoop_step_cases Let_def split: goroutine.splits list.splits if_splits)
next
  case (Send k)
  assume "shut w"
  with Send show ?thesis
    by (auto simp: shut_def step_def Write_send_def chan_send_def split: if_splits)
next
  case (CallStart count)
  assume "shut w"
  with CallStart show ?thesis
    by (auto simp: shut_def step_def Start_dw split: if_splits)
next
  case (CallWrite doc)
  assume "shut w"
  with CallWrite show ?thesis
    by (auto simp: shut_def step_def Write_locked_eq split: if_splits)
next
  case FlushClose
  assume "shut w"
  with FlushClose show ?thesis
    by (auto simp: shut_def step_def Flush_close_def chan_close_def split: if_splits)
next
  case FlushWait
  assume "shut w"
  with FlushWait show ?thesis
    by (auto simp: shut_def step_def Flush_wait_def split: if_splits)
qed

lemma set_update_Exited:
  "k < length xs \<Longrightarrow> y \<noteq> Exited \<Longrightarrow> xs ! k \<noteq> Exited \<Longrightarrow>
   (Exited \<in> set (xs[k := y])) = (Exited \<in> set xs)"
  by (induction xs arbitrary: k) (auto split: nat.splits)

lemma drained_step: "drained w \<Longrightarrow> drained (step ins a w)"
proof (cases a)
  case (Run k)
  assume d: "drained w"
  show ?thesis
  proof (cases "panicked w = None \<and> k < length (goroutines w)")
    case False
    with d Run show ?thesis by (auto simp: step_def)
  next
    case True
    then have k: "k < length (goroutines w)" by simp
    note u = set_update_Exited[OF k]
    show ?thesis
    proof (cases "goroutines w ! k")
      case Spawned
      with d Run True u[of "LoopTop None"] show ?thesis
        by (auto simp: drained_def step_def writeLoop_step_cases split: if_splits)
    next
      case (LoopTop err)
      with d Run True u[of "AtRecv err"] show ?thesis
        by (auto simp: drained_def step_def writeLoop_step_cases split: if_splits)
    next
      case (AtRecv err)
      show ?thesis
      proof (cases "buf (wchan (dw w))")
        case Nil
        with AtRecv d Run True show ?thesis
          by (auto simp: drained_def step_def writeLoop_step_cases split: if_splits)
      next
        case (Cons doc rest)
        with d have "Exited \<notin> set (goroutines w)"
          by (auto simp: drained_def split: if_splits)
        with Cons AtRecv Run True u[of "Working err doc"] show ?thesis
          by (auto simp: drained_def step_def writeLoop_step_cases Let_def split: if_splits)
      qed
    next
      case (Working err doc)
      with d Run True u[of "LoopTop e" for e] show ?thesis
        by (auto simp: drained_def step_def writeLoop_step_cases Let_def split: if_splits)
    next
      case Exited
      with d Run True show ?thesis
        by (auto simp: drained_def step_def writeLoop_step_cases split: if_splits)
    qed
  qed
next
  case (Send k)
  assume "drained w"
  with Send show ?thesis
    by (auto simp: drained_def step_def Write_send_def chan_send_def split: if_splits)
next
  case (CallStart count)
  assume "drained w"
  with CallStart show ?thesis
    by (auto simp: drained_def step_def Start_dw Start_goroutines split: if_splits)
next
  case (CallWrite doc)
  assume "drained w"
  with CallWrite show ?thesis
    by (auto simp: drained_def step_def Write_locked_eq split: if_splits)
next
  case FlushClose
  assume "drained w"
  with FlushClose show ?thesis
    by (auto simp: drained_def step_def Flush_close_def chan_close_def split: if_splits)
next
  case FlushWait
  assume "drained w"
  with FlushWait show ?thesis
    by (auto simp: drained_def step_def Flush_wait_def split: if_splits)
qed

lemma run_Nil [simp]: "run ins [] w = w"
  by (simp add: run_def)

lemma run_Cons [simp]: "run ins (a # acts) w = run ins acts (step ins a w)"
  by (simp add: run_def)

lemma run_append: "run ins (xs @ ys) w = run ins ys (run ins xs w)"
  by (simp add: run_def)

lemma run_keeps:
  assumes "P w" and "\<And>v a. P v \<Longrightarrow> P (step ins a v)"
  shows "P (run ins acts w)"
  using assms(1) by (induction acts arbitrary: w) (simp_all add: assms(2))

lemma boot_invariants:
  "conserved (boot (New ssn p iw wl dbs))" "settled (boot (New ssn p iw wl dbs))"
  "counted (boot (New ssn p iw wl dbs))" "shut (boot (New ssn p iw wl dbs))"
  "drained (boot (New ssn p iw wl dbs))"
  by (simp_all add: conserved_def same_documents_def whereabouts_def busy_def settled_def
      counted_def shut_def drained_def boot_def New_def)

lemma run_invariants:
  "conserved (run ins acts (boot (New ssn p iw wl dbs)))"
  "settled (run ins acts (boot (New ssn p iw wl dbs)))"
  "counted (run ins acts (boot (New ssn p iw wl dbs)))"
  "shut (run ins acts (boot (New ssn p iw wl dbs)))"
  "drained (run ins acts (boot (New ssn p iw wl dbs)))"
  by (rule run_keeps, rule boot_invariants, erule conserved_step)
     (rule run_keeps, rule boot_invariants, erule settled_step,
      rule run_keeps, rule boot_invariants, erule counted_step,
      rule run_keeps, rule boot_invariants, erule shut_step,
      rule run_keeps, rule boot_invariants, erule drained_step)

section \<open>Draining the queue after \<open>Flush\<close> has closed it\<close>

lemma drain_step:
  assumes c: "closed (wchan (dw w))" and p: "panicked w = None" and n: "counted w"
    and d: "drained w" and a: "draining a" and k: "k < length (goroutines w)"
  shows "panicked (step ins a w) = None"
    and "length (goroutines (step ins a w)) = length (goroutines w)"
    and "todo k (step ins a w) \<le> todo k w - (if a = Run k then 1 else 0)"
    and "sent (step ins a w) = sent w"
proof -
  have "panicked (step ins a w) = None
      \<and> length (goroutines (step ins a w)) = length (goroutines w)
      \<and> todo k (step ins a w) \<le> todo k w - (if a = Run k then 1 else 0)
      \<and> sent (step ins a w) = sent w"
  proof (cases a)
    case FlushWait
    with p show ?thesis
      by (simp add: step_def Flush_wait_def todo_def)
  next
    case (Run j)
    show ?thesis
    proof (cases "j < length (goroutines w)")
      case False
      with p Run k show ?thesis by (auto simp: step_def)
    next
      case True
      show ?thesis
      proof (cases "goroutines w ! j")
        case Spawned
        with p Run True k show ?thesis
          by (auto simp: step_def writeLoop_step_cases todo_def nth_list_update)
      next
        case (LoopTop err)
        with p Run True k show ?thesis
          by (auto simp: step_def writeLoop_step_cases todo_def nth_list_update)
      next
        case (AtRecv err)
        then have "in_loop (goroutines w ! j)" by simp
        from filter_count_pos[OF True, of in_loop, OF this] n have wg: "0 < wg (dw w)"
          by (simp add: counted_def)
        show ?thesis
        proof (cases "buf (wchan (dw w))")
          case Nil
          with AtRecv p Run True k c wg show ?thesis
            by (auto simp: step_def writeLoop_step_cases todo_def nth_list_update)
        next
          case (Cons doc rest)
          with AtRecv p Run True k show ?thesis
            by (auto simp: step_def writeLoop_step_cases todo_def nth_list_update Let_def)
        qed
      next
        case (Working err doc)
        with p Run True k show ?thesis
          by (auto simp: step_def writeLoop_step_cases todo_def nth_list_update Let_def)
      next
        case Exited
        with True have "Exited \<in> set (goroutines w)"
          by (metis nth_mem)
        with d have "buf (wchan (dw w)) = []"
          by (simp add: drained_def)
        with Exited p Run True k show ?thesis
          by (auto simp: step_def writeLoop_step_cases todo_def)
      qed
    qed
  qed (use a in simp_all)
  then show "panicked (step ins a w) = None"
    and "length (goroutines (step ins a w)) = length (goroutines w)"
    and "todo k (step ins a w) \<le> todo k w - (if a = Run k then 1 else 0)"
    and "sent (step ins a w) = sent w"
    by simp_all
qed

lemma drain_run:
  assumes "closed (wchan (dw w))" and "panicked w = None" and "counted w" and "drained w"
    and "list_all draining later" and "k < length (goroutines w)"
  shows "panicked (run ins later w) = None \<and> sent (run ins later w) = sent w
         \<and> length (goroutines (run ins later w)) = length (goroutines w)
         \<and> todo k (run ins later w) \<le> todo k w - count_list later (Run k)"
  using assms
proof (induction later arbitrary: w)
  case Nil
  then show ?case by simp
next
  case (Cons a later)
  from Cons.prems have a: "draining a" and m: "list_all draining later" by simp_all
  note s = drain_step[OF Cons.prems(1-4) a Cons.prems(6), of ins]
  have k: "k < length (goroutines (step ins a w))"
    using s(2) Cons.prems(6) by simp
  from Cons.IH[OF closed_step[OF Cons.prems(1)] s(1) counted_step[OF Cons.prems(3)]
      drained_step[OF Cons.prems(4)] m k]
  have "panicked (run ins later (step ins a w)) = None"
    and "sent (run ins later (step ins a w)) = sent (step ins a w)"
    and "length (goroutines (run ins later (step ins a w))) = length (goroutines (step ins a w))"
    and "todo k (run ins later (step ins a w)) \<le> todo k (step ins a w) - count_list later (Run k)"
    by simp_all
  with s(2,3,4) show ?case
    by (auto split: if_splits)
qed

lemma run_config:
  "Whitelist (dw (run ins acts w)) = Whitelist (dw w) \<and> ImportWl (dw (run ins acts w)) = ImportWl (dw w)"
  by (induction acts arbitrary: w) (simp_all add: step_config)

lemma steps_left_le: "steps_left g \<le> 3"
  by (cases g) simp_all

lemma steps_left_0: "steps_left g = 0 \<Longrightarrow> g = Exited"
  by (cases g) simp_all

lemma busy_all_Exited: "list_all (\<lambda>g. g = Exited) gs \<Longrightarrow> concat (map in_hand gs) = []"
  by (induction gs) simp_all

text \<open>
  What the pool does once it runs. Take any schedule from a new writer, that is any
  calls of \<open>Start\<close>, any \<open>Write\<close> calls of any producers and the steps of the goroutines
  in any order, after which \<open>Flush\<close> has closed the channel and nothing has panicked,
  and let the pool have a goroutine. Let the producers be silent from then on, and let
  every goroutine of the pool be given at least three times the length of the buffer
  plus three steps, in any order. Then the buffer ends empty and every goroutine has
  exited; the documents whose iteration is over are the documents that entered the
  channel, each as often as it entered; and each of them was inserted, or went through
  five failed and logged retries, or was skipped by the filter. Nothing has panicked.
  The hypotheses are needed: \<open>Flush\<close> itself waits for none of this when a goroutine
  has not begun, as the section on \<open>Flush\<close> shows.
\<close>

theorem closed_queue_is_drained_and_resolved:
  assumes "w = run ins acts (boot (New ssn p iw wl dbs))"
    and "closed (wchan (dw w))" and "panicked w = None"
    and "goroutines w \<noteq> []"
    and "list_all draining later"
    and "\<forall>k<length (goroutines w).
           3 * length (buf (wchan (dw w))) + 3 \<le> count_list later (Run k)"
  shows "let w' = run ins later w in
     panicked w' = None \<and> buf (wchan (dw w')) = []
     \<and> length (goroutines w') = length (goroutines w)
     \<and> list_all (\<lambda>g. g = Exited) (goroutines w')
     \<and> same_documents (map fst (handled w')) (sent w)
     \<and> (\<forall>(doc, evs)\<in>set (handled w').
           inserted doc evs \<or> exhausted doc evs \<or> skipped (dw w) evs)"
proof -
  define w' where "w' = run ins later w"
  have w'_reach: "w' = run ins (acts @ later) (boot (New ssn p iw wl dbs))"
    by (simp add: w'_def assms(1) run_append)
  have inv: "counted w" "drained w"
    unfolding assms(1) by (rule run_invariants)+
  from assms(4) have k0: "0 < length (goroutines w)" by simp
  from drain_run[OF assms(2,3) inv assms(5) k0, of ins]
  have pn: "panicked w' = None" and s: "sent w' = sent w"
    and l: "length (goroutines w') = length (goroutines w)"
    by (simp_all add: w'_def)
  have e: "goroutines w' ! k = Exited" if k: "k < length (goroutines w)" for k
  proof -
    from drain_run[OF assms(2,3) inv assms(5) k, of ins]
    have t: "todo k w' \<le> todo k w - count_list later (Run k)"
      by (simp add: w'_def)
    have "todo k w \<le> 3 * length (buf (wchan (dw w))) + 3"
      using steps_left_le[of "goroutines w ! k"] by (simp add: todo_def)
    with t assms(6) k have "todo k w' = 0" by fastforce
    then show ?thesis
      by (simp add: todo_def steps_left_0)
  qed
  from e l have x: "list_all (\<lambda>g. g = Exited) (goroutines w')"
    by (simp add: list_all_length)
  have inv': "conserved w'" "settled w'" "drained w'"
    unfolding w'_reach by (rule run_invariants)+
  from e[OF k0] l k0 have "Exited \<in> set (goroutines w')"
    by (metis nth_mem)
  with inv'(3) have b: "buf (wchan (dw w')) = []"
    by (simp add: drained_def)
  from inv'(1) have h: "same_documents (map fst (handled w')) (sent w)"
    by (simp add: conserved_def whereabouts_def busy_def busy_all_Exited[OF x] b s)
  from inv'(2) have r: "list_all (\<lambda>(doc, evs). resolved (dw w') doc evs) (handled w')"
    by (simp add: settled_def)
  have "resolved (dw w') = resolved (dw w)"
    unfolding w'_def by (rule resolved_config) (simp_all add: run_config)
  with r have "\<forall>(doc, evs)\<in>set (handled w').
      inserted doc evs \<or> exhausted doc evs \<or> skipped (dw w) evs"
    by (simp add: list_all_iff resolved_def)
  with pn b l x h show ?thesis
    unfolding Let_def w'_def[symmetric] by blast
qed

lemma write_then_close_world:
  "run (down_until 1) write_then_close (boot d0) =
     \<lparr>dw = \<lparr>Ssn = mongo0, pre = ''rita-'', ImportWl = False, Whitelist = None,
             wchan = \<lparr>buf = [doc0\<lparr>DB := ''rita-flows''\<rparr>], closed = True\<rparr>, wg = 0,
             Meta = [''rita-flows''], Databases = [''rita-flows''], started = True\<rparr>,
       goroutines = [Spawned], inflight = [], flushing = True, flushed = False,
       panicked = None,
       trace = [LogDebug ''closing write channel'', LogDebug ''waiting for writes to finish''],
       sent = [doc0\<lparr>DB := ''rita-flows''\<rparr>], handled = []\<rparr>"
  by (simp add: write_then_close_def boot_def d0_def New_def step_def Start_def Start_for.simps
      Write_locked_eq doc0_def Write_send_def chan_send_def wchan_cap_def Flush_close_def
      chan_close_def)

theorem closed_queue_is_drained_and_resolved_witness:
  "closed (wchan (dw (run (down_until 1) write_then_close (boot d0))))
   \<and> panicked (run (down_until 1) write_then_close (boot d0)) = None
   \<and> goroutines (run (down_until 1) write_then_close (boot d0)) = [Spawned]
   \<and> sent (run (down_until 1) write_then_close (boot d0)) = [doc0\<lparr>DB := ''rita-flows''\<rparr>]
   \<and> same_documents
       (map fst (handled (run (down_until 1) (replicate 6 (Run 0))
                   (run (down_until 1) write_then_close (boot d0)))))
       [doc0\<lparr>DB := ''rita-flows''\<rparr>]
   \<and> buf (wchan (dw (run (down_until 1) (replicate 6 (Run 0))
                 (run (down_until 1) write_then_close (boot d0))))) = []"
proof -
  define w where "w = run (down_until 1) write_then_close (boot d0)"
  have r: "w = run (down_until 1) write_then_close (boot (New mongo0 ''rita-'' False None []))"
    by (simp add: w_def d0_def)
  have c: "closed (wchan (dw w))" and p: "panicked w = None" and g: "goroutines w = [Spawned]"
    and s: "sent w = [doc0\<lparr>DB := ''rita-flows''\<rparr>]"
    unfolding w_def write_then_close_world by simp_all
  from g have k: "goroutines w \<noteq> []" by simp
  have l: "list_all draining (replicate 6 (Run 0) :: nat action list)"
    by (simp add: numeral_eq_Suc)
  have n: "\<forall>k<length (goroutines w). 3 * length (buf (wchan (dw w))) + 3
             \<le> count_list (replicate 6 (Run 0) :: nat action list) (Run k)"
    unfolding w_def write_then_close_world by (simp add: numeral_eq_Suc)
  from closed_queue_is_drained_and_resolved[OF r c p k l n] c p g s show ?thesis
    unfolding Let_def w_def[symmetric] by simp
qed

section \<open>\<open>Write\<close> after \<open>Flush\<close>\<close>

text \<open>
  Claim C3, as the code has it. Once \<open>Flush\<close> has returned, a call of \<open>Write\<close> runs its
  locked part as always: a prefixed name not yet known is reported to \<open>AddNewDB\<close> and
  appended to \<open>Databases\<close>, a known one changes nothing. Then the call panics at the
  send with Go's "send on closed channel": the document does not enter the channel, and
  since nothing in the package recovers, the panic ends the process. This holds of the
  call taken alone (\<open>Write\<close>) and of its two parts in a schedule.
\<close>

theorem Write_after_Flush_panics:
  assumes "w = run ins acts (boot (New ssn p iw wl dbs))"
    and "flushed w" and "panicked w = None"
  shows "let name = pre (dw w) @ DB doc;
             d' = (if name \<in> set (Databases (dw w)) then dw w
                   else (dw w)\<lparr>Meta := Meta (dw w) @ [name],
                                Databases := Databases (dw w) @ [name]\<rparr>);
             w' = run ins [CallWrite doc, Send (length (inflight w))] w
         in fst (Write doc (dw w)) = Panic ''send on closed channel''
            \<and> snd (Write doc (dw w)) = d'
            \<and> wchan (snd (Write doc (dw w))) = wchan (dw w)
            \<and> name \<in> set (Databases (snd (Write doc (dw w))))
            \<and> panicked w' = Some ''send on closed channel''
            \<and> dw w' = d'
            \<and> name \<in> set (Databases (dw w'))
            \<and> sent w' = sent w
            \<and> wchan (dw w') = wchan (dw w)"
proof -
  have "shut w"
    unfolding assms(1) by (rule run_invariants)
  with assms(2) have c: "closed (wchan (dw w))"
    by (simp add: shut_def)
  define name where "name = pre (dw w) @ DB doc"
  define d' where "d' = (if name \<in> set (Databases (dw w)) then dw w
      else (dw w)\<lparr>Meta := Meta (dw w) @ [name], Databases := Databases (dw w) @ [name]\<rparr>)"
  define w' where "w' = run ins [CallWrite doc, Send (length (inflight w))] w"
  have l: "Write_locked doc (dw w) = (doc\<lparr>DB := name\<rparr>, d')"
    by (simp add: Write_locked_eq name_def d'_def)
  have cd: "closed (wchan d')" and wd: "wchan d' = wchan (dw w)"
    and nd: "name \<in> set (Databases d')"
    using c by (simp_all add: d'_def)
  have a: "fst (Write doc (dw w)) = Panic ''send on closed channel''"
    and b: "snd (Write doc (dw w)) = d'"
    using cd by (simp_all add: Write_def l chan_send_def)
  have e: "panicked w' = Some ''send on closed channel''" and f: "dw w' = d'"
    and g: "sent w' = sent w"
    using cd assms(3) by (simp_all add: w'_def step_def l Write_send_def chan_send_def)
  show ?thesis
    unfolding Let_def name_def[symmetric] d'_def[symmetric] w'_def[symmetric]
    using a b e f g wd nd by simp
qed

theorem Write_after_Flush_panics_witness:
  "flushed (run always_down [FlushClose, FlushWait] (boot d0))
   \<and> panicked (run always_down [FlushClose, FlushWait] (boot d0)) = None
   \<and> fst (Write doc0 (dw (run always_down [FlushClose, FlushWait] (boot d0))))
       = Panic ''send on closed channel''
   \<and> Meta (snd (Write doc0 (dw (run always_down [FlushClose, FlushWait] (boot d0)))))
       = [''rita-flows'']
   \<and> Databases (snd (Write doc0 (dw (run always_down [FlushClose, FlushWait] (boot d0)))))
       = [''rita-flows'']"
proof -
  define w where "w = run always_down [FlushClose, FlushWait] (boot d0)"
  have r: "w = run always_down [FlushClose, FlushWait] (boot (New mongo0 ''rita-'' False None []))"
    by (simp add: w_def d0_def)
  have f: "flushed w" and p: "panicked w = None"
    and n: "pre (dw w) = ''rita-''" "Databases (dw w) = []" "Meta (dw w) = []"
    by (simp_all add: w_def boot_def d0_def New_def step_def Flush_close_def chan_close_def
        Flush_wait_def)
  from Write_after_Flush_panics[OF r f p, of doc0] f p n show ?thesis
    unfolding w_def[symmetric] by (simp add: Let_def doc0_def)
qed

text \<open>
  The claim as the spec words it has the call fail without a panic. After \<open>Flush\<close> the
  send of a \<open>Write\<close> panics.
\<close>

theorem Write_after_Flush_counterexample:
  "panicked (run always_down [FlushClose, FlushWait, CallWrite doc0, Send 0] (boot d0))
     = Some ''send on closed channel''"
  by (simp add: boot_def d0_def New_def step_def Flush_close_def chan_close_def Flush_wait_def
      Write_locked_eq Write_send_def chan_send_def)

section \<open>\<open>Flush\<close> and the goroutines that have not begun\<close>

text \<open>
  Claim C2 fails on the code. \<open>Start\<close> spawns a goroutine and returns; the goroutine
  calls \<open>wg.Add(1)\<close> only when it first runs. If \<open>Flush\<close> reaches \<open>wg.Wait()\<close> before
  that, the counter is zero and \<open>Flush\<close> returns while the document written before it is
  still in the buffer and no goroutine has received it.
\<close>

theorem Flush_returns_before_goroutine_begins:
  "flushed (run always_down flush_at_once (boot d0))
   \<and> panicked (run always_down flush_at_once (boot d0)) = None
   \<and> goroutines (run always_down flush_at_once (boot d0)) = [Spawned]
   \<and> sent (run always_down flush_at_once (boot d0)) = [doc0\<lparr>DB := ''rita-flows''\<rparr>]
   \<and> buf (wchan (dw (run always_down flush_at_once (boot d0)))) = [doc0\<lparr>DB := ''rita-flows''\<rparr>]
   \<and> handled (run always_down flush_at_once (boot d0)) = []"
  by (simp add: flush_at_once_def boot_def d0_def New_def step_def Start_def Start_for.simps
      Write_locked_eq doc0_def Write_send_def chan_send_def wchan_cap_def Flush_close_def
      chan_close_def Flush_wait_def)

text \<open>
  Claim C1 fails on the code, by the same \<open>wg.Add(1)\<close> of line 127. In the schedule
  \<open>flush_at_once\<close>, that is \<open>Start(1)\<close>, one \<open>Write\<close> and \<open>Flush\<close> with the goroutine not
  yet run, the document has entered the channel and \<open>Flush\<close> has returned without a
  panic, and the document is in none of the three states of the claim: no \<open>Insert\<close> was called and the database holds nothing;
  no error entry was logged; the filter does not match and no iteration ran, so it was
  not skipped either. It sits in the buffer, and the log ends with the entry
  \<open>writes completed, exiting write loop\<close>.
\<close>

theorem Flush_returns_with_request_unresolved:
  "let w = run always_down flush_at_once (boot d0) in
     flushed w \<and> panicked w = None
     \<and> sent w = [doc0\<lparr>DB := ''rita-flows''\<rparr>]
     \<and> whereabouts w = [doc0\<lparr>DB := ''rita-flows''\<rparr>]
     \<and> buf (wchan (dw w)) = [doc0\<lparr>DB := ''rita-flows''\<rparr>]
     \<and> busy w = [] \<and> handled w = []
     \<and> inserts (trace w) = [] \<and> calls (Ssn (dw w)) = 0 \<and> stored (Ssn (dw w)) = []
     \<and> error_entries (trace w) = []
     \<and> \<not> isWhitelisted (Whitelist (dw w)) placeholder
     \<and> trace w = [LogDebug ''closing write channel'',
                   LogDebug ''waiting for writes to finish'',
                   LogDebug ''writes completed, exiting write loop'']"
  by (simp add: flush_at_once_def boot_def d0_def New_def step_def Start_def Start_for.simps
      Write_locked_eq doc0_def Write_send_def chan_send_def wchan_cap_def Flush_close_def
      chan_close_def Flush_wait_def whereabouts_def busy_def mongo0_def isWhitelisted_def)

text \<open>
  What \<open>Flush\<close> does guarantee: if, when \<open>wg.Wait()\<close> returns, the pool is not empty and
  every goroutine of it has begun (none is still \<open>Spawned\<close>), then the buffer is empty,
  no goroutine has a document in hand, and the documents whose iteration is over are
  the documents that entered the channel, each as often as it entered, and each
  resolved.
\<close>

theorem Flush_waits_for_begun_goroutines:
  assumes "w = run ins acts (boot (New ssn p iw wl dbs))"
    and "wg (dw w) = 0" and "goroutines w \<noteq> []" and "Spawned \<notin> set (goroutines w)"
  shows "buf (wchan (dw w)) = [] \<and> busy w = []
     \<and> same_documents (map fst (handled w)) (sent w)
     \<and> list_all (\<lambda>(doc, evs). resolved (dw w) doc evs) (handled w)"
proof -
  have inv: "conserved w" "settled w" "counted w" "drained w"
    unfolding assms(1) by (rule run_invariants)+
  from inv(3) assms(2) have f: "filter in_loop (goroutines w) = []"
    by (simp add: counted_def)
  have e: "g = Exited" if g: "g \<in> set (goroutines w)" for g
  proof -
    from f g have "\<not> in_loop g"
      by (simp add: filter_empty_conv)
    moreover from g assms(4) have "g \<noteq> Spawned"
      by auto
    ultimately show ?thesis
      by (cases g) auto
  qed
  then have x: "list_all (\<lambda>g. g = Exited) (goroutines w)"
    by (simp add: list_all_iff)
  from assms(3) obtain g where "g \<in> set (goroutines w)"
    by (cases "goroutines w") auto
  with e have "Exited \<in> set (goroutines w)"
    by auto
  with inv(4) have b: "buf (wchan (dw w)) = []"
    by (auto simp: drained_def)
  from inv(1,2) show ?thesis
    by (simp add: conserved_def whereabouts_def busy_def busy_all_Exited[OF x] b settled_def)
qed


lemma drain_before_wait_world:
  "wg (dw (run (down_until 0) drain_before_wait (boot d0))) = 0
   \<and> goroutines (run (down_until 0) drain_before_wait (boot d0)) = [Exited]
   \<and> sent (run (down_until 0) drain_before_wait (boot d0)) = [doc0\<lparr>DB := ''rita-flows''\<rparr>]"
  by (simp add: drain_before_wait_def boot_def d0_def New_def step_def Start_def Start_for.simps
      Write_locked_eq doc0_def Write_send_def chan_send_def wchan_cap_def Flush_close_def
      chan_close_def writeLoop_step_cases writeLoop_body_inserting isWhitelisted_def
      down_until_def mongo0_def)

theorem Flush_waits_for_begun_goroutines_witness:
  "wg (dw (run (down_until 0) drain_before_wait (boot d0))) = 0
   \<and> goroutines (run (down_until 0) drain_before_wait (boot d0)) = [Exited]
   \<and> buf (wchan (dw (run (down_until 0) drain_before_wait (boot d0)))) = []
   \<and> same_documents (map fst (handled (run (down_until 0) drain_before_wait (boot d0))))
       [doc0\<lparr>DB := ''rita-flows''\<rparr>]"
proof -
  define w where "w = run (down_until 0) drain_before_wait (boot d0)"
  have r: "w = run (down_until 0) drain_before_wait (boot (New mongo0 ''rita-'' False None []))"
    by (simp add: w_def d0_def)
  have a: "wg (dw w) = 0" and g: "goroutines w = [Exited]"
    and s: "sent w = [doc0\<lparr>DB := ''rita-flows''\<rparr>]"
    unfolding w_def using drain_before_wait_world by simp_all
  have n: "goroutines w \<noteq> []" and b: "Spawned \<notin> set (goroutines w)"
    by (simp_all add: g)
  from Flush_waits_for_begun_goroutines[OF r a n b] a g s show ?thesis
    unfolding w_def[symmetric] by simp
qed

section \<open>When the stale error can arise\<close>

lemma list_all_update: "list_all P xs \<Longrightarrow> P y \<Longrightarrow> list_all P (xs[k := y])"
  by (induction xs arbitrary: k) (auto split: nat.splits)

lemma err_nil_step:
  assumes f: "isWhitelisted (Whitelist (dw w)) placeholder" "\<not> ImportWl (dw w)"
    and n: "list_all (\<lambda>g. err_of g = None) (goroutines w)"
  shows "list_all (\<lambda>g. err_of g = None) (goroutines (step ins a w))"
proof (cases a)
  case (Run k)
  show ?thesis
  proof (cases "panicked w = None \<and> k < length (goroutines w)")
    case False
    with n Run show ?thesis by (auto simp: step_def)
  next
    case True
    then have "goroutines w ! k \<in> set (goroutines w)" by simp
    with n have e: "err_of (goroutines w ! k) = None"
      by (simp add: list_all_iff)
    have b: "fst (snd (writeLoop_body ins None doc (dw w))) = None" for doc
      using f by (simp add: writeLoop_body_skipping)
    from True Run e n show ?thesis
      by (auto simp: step_def writeLoop_step_cases Let_def b intro!: list_all_update
          split: goroutine.splits list.splits)
  qed
next
  case (CallStart count)
  with n show ?thesis
    by (auto simp: step_def Start_goroutines list_all_iff)
next
  case (Send k)
  with n show ?thesis
    by (simp add: step_def Write_send_def chan_send_def)
next
  case (CallWrite doc)
  with n show ?thesis
    by (simp add: step_def Write_locked_eq)
next
  case FlushClose
  with n show ?thesis
    by (simp add: step_def Flush_close_def chan_close_def)
next
  case FlushWait
  with n show ?thesis
    by (simp add: step_def Flush_wait_def)
qed

text \<open>
  A writer whose whitelist matches the placeholder and whose import flag is off never
  calls \<open>Insert\<close> from the loop, so the variable \<open>err\<close> of every goroutine stays nil under
  every schedule: the retry of a filtered document needs a change of \<open>Whitelist\<close> or
  \<open>ImportWl\<close> between two iterations, which no function of the package makes.
\<close>

theorem stale_error_needs_config_change:
  assumes "isWhitelisted wl placeholder" and "\<not> iw"
  shows "list_all (\<lambda>g. err_of g = None) (goroutines (run ins acts (boot (New ssn p iw wl dbs))))"
proof -
  have "isWhitelisted (Whitelist (dw v)) placeholder \<and> \<not> ImportWl (dw v)
      \<and> list_all (\<lambda>g. err_of g = None) (goroutines v)"
    if "v = run ins acts (boot (New ssn p iw wl dbs))" for v
    unfolding that
  proof (rule run_keeps)
    show "isWhitelisted (Whitelist (dw (boot (New ssn p iw wl dbs)))) placeholder \<and>
        \<not> ImportWl (dw (boot (New ssn p iw wl dbs))) \<and>
        list_all (\<lambda>g. err_of g = None) (goroutines (boot (New ssn p iw wl dbs)))"
      using assms by (simp add: boot_def New_def)
  next
    fix v :: "'a world" and a
    assume "isWhitelisted (Whitelist (dw v)) placeholder \<and> \<not> ImportWl (dw v)
      \<and> list_all (\<lambda>g. err_of g = None) (goroutines v)"
    then show "isWhitelisted (Whitelist (dw (step ins a v))) placeholder \<and>
        \<not> ImportWl (dw (step ins a v)) \<and>
        list_all (\<lambda>g. err_of g = None) (goroutines (step ins a v))"
      by (simp add: step_config err_nil_step)
  qed
  then show ?thesis by simp
qed

theorem stale_error_needs_config_change_witness:
  "isWhitelisted (Some [''wholesome'']) placeholder
   \<and> list_all (\<lambda>g. err_of g = None)
        (goroutines (run always_down [CallStart 1, CallWrite doc0, Send 0, Run 0, Run 0, Run 0]
           (boot d_filtering)))"
proof -
  have f: "isWhitelisted (Some [''wholesome'']) placeholder"
    by (simp add: isWhitelisted_def placeholder_def)
  from stale_error_needs_config_change[OF f, of False always_down
      "[CallStart 1, CallWrite doc0, Send 0, Run 0, Run 0, Run 0]" mongo0 "''rita-''" "[]"] f
  show ?thesis by (simp add: d_filtering_def)
qed

section \<open>The queue under every schedule\<close>

text \<open>
  Under every schedule from a new writer, at every moment, the documents that entered
  the channel are, each as often as it entered, the documents whose iteration is over,
  those in the hands of a goroutine and those in the buffer: none is lost and none is
  received twice. And every document whose iteration is over has been inserted, has
  gone through five failed retries, or was skipped by the filter.
\<close>

theorem queue_conserved_in_every_schedule:
  "same_documents (whereabouts (run ins acts (boot (New ssn p iw wl dbs))))
     (sent (run ins acts (boot (New ssn p iw wl dbs))))
   \<and> list_all (\<lambda>(doc, evs). inserted doc evs \<or> exhausted doc evs \<or> skipped (New ssn p iw wl dbs) evs)
       (handled (run ins acts (boot (New ssn p iw wl dbs))))"
proof -
  define w where "w = run ins acts (boot (New ssn p iw wl dbs))"
  have "conserved w" "settled w"
    unfolding w_def by (rule run_invariants)+
  moreover have "resolved (dw w) = resolved (New ssn p iw wl dbs)"
    by (rule resolved_config) (simp_all add: w_def run_config boot_def)
  ultimately show ?thesis
    unfolding w_def[symmetric] by (simp add: conserved_def settled_def resolved_def)
qed

theorem queue_conserved_in_every_schedule_witness:
  "whereabouts (run (down_until 1) write_then_close (boot d0)) = [doc0\<lparr>DB := ''rita-flows''\<rparr>]
   \<and> same_documents (whereabouts (run (down_until 1) write_then_close (boot d0)))
       [doc0\<lparr>DB := ''rita-flows''\<rparr>]"
  using queue_conserved_in_every_schedule[of "down_until 1" write_then_close mongo0 "''rita-''"
      False None "[]"]
  unfolding d0_def[symmetric] write_then_close_world by (simp add: whereabouts_def busy_def)

end
